theory Spec2Isabelle
  imports Main "HOL-Library.Word" "HOL-Library.Char_ord" "HOL-Library.List_Lexorder"
begin

unbundle bit_operations_syntax

section \<open>The JSON value (Json.h)\<close>

text \<open>
  \<open>jsonElement\<close> holds a \<open>std::variant\<close> of eight alternatives, kept here in the order of
  the declaration: \<open>std::monostate\<close> (null), \<open>int64_t\<close>, \<open>double\<close>, \<open>std::string\<close>,
  \<open>objectType\<close>, \<open>arrayType\<close>, \<open>bool\<close> and the type of the \<open>array\<close> marker.
  An \<open>int64_t\<close> is a 64-bit word read with \<open>sint\<close>. A \<open>double\<close> is carried as its
  64-bit pattern; the two library conversions \<open>std::to_string(double)\<close> and \<open>std::stod\<close>
  are parameters of the codec (see \<open>platform\<close>). A \<open>std::string\<close> is a list of bytes.
  \<open>objectType\<close> is a \<open>std::map\<close> with \<open>std::less\<close>: an association list whose keys are
  strictly increasing in the byte-wise lexicographic order.
\<close>

type_synonym int64 = "64 word"
type_synonym double = "64 word"

datatype jsonElement =
    JNull
  | JInt int64
  | JDouble double
  | JString string
  | JObject "(string \<times> jsonElement) list"
  | JArray "jsonElement list"
  | JBool bool
  | JArrayTag

text \<open>
  What the code throws: a string literal (\<open>throw "element not found"\<close>), a
  \<open>dabException\<close>, the two pair types that \<open>dabClient::dispatch\<close> catches, the exceptions
  of the standard library that the code can provoke, and \<open>OutOfBounds\<close> for an access
  that C++ leaves undefined (an index or an iterator past the end of its container), as
  \<open>SignedOverflow\<close> for signed arithmetic whose result its type cannot hold.
\<close>

datatype exn =
    CString string
  | DabException int64 string
  | PairIntString "32 word" string
  | PairIntCString "32 word" string
  | InvalidArgument
  | OutOfRange
  | BadFunctionCall
  | OutOfBounds
  | SignedOverflow

subsection \<open>\<open>std::map\<close> as a sorted association list\<close>

text \<open>\<open>std::map::insert\<close> keeps the mapped value of a key that is already present.\<close>

fun map_insert :: "'k::linorder \<Rightarrow> 'v \<Rightarrow> ('k \<times> 'v) list \<Rightarrow> ('k \<times> 'v) list" where
  "map_insert k v [] = [(k, v)]"
| "map_insert k v ((k', v') # m) =
     (if k = k' then (k', v') # m
      else if k < k' then (k, v) # (k', v') # m
      else (k', v') # map_insert k v m)"

text \<open>\<open>m[k] = v\<close>: \<open>std::map::operator[]\<close> followed by the assignment to the reference.\<close>

fun map_assign :: "'k::linorder \<Rightarrow> 'v \<Rightarrow> ('k \<times> 'v) list \<Rightarrow> ('k \<times> 'v) list" where
  "map_assign k v [] = [(k, v)]"
| "map_assign k v ((k', v') # m) =
     (if k = k' then (k, v) # m
      else if k < k' then (k, v) # (k', v') # m
      else (k', v') # map_assign k v m)"

subsection \<open>Construction\<close>

text \<open>
  \<open>jsonElement ( std::initializer_list <jsonElement> i )\<close>. Two elements of which the
  first holds a string make the object with that one member. Otherwise, a list of objects
  only is merged into one object (\<open>obj.insert\<close> keeps the first value of a key), and any
  other list is an array from which the \<open>array\<close> markers are dropped.
\<close>

fun isString :: "jsonElement \<Rightarrow> bool" where
  "isString (JString s) = True"
| "isString _ = False"

fun isObject :: "jsonElement \<Rightarrow> bool" where
  "isObject (JObject obj) = True"
| "isObject _ = False"

fun isArrayTag :: "jsonElement \<Rightarrow> bool" where
  "isArrayTag JArrayTag = True"
| "isArrayTag _ = False"

fun insert_range :: "(string \<times> jsonElement) list \<Rightarrow> (string \<times> jsonElement) list \<Rightarrow>
    (string \<times> jsonElement) list" where
  "insert_range [] obj = obj"
| "insert_range ((k, v) # elem) obj = insert_range elem (map_insert k v obj)"

fun merge_objects :: "jsonElement list \<Rightarrow> (string \<times> jsonElement) list \<Rightarrow>
    (string \<times> jsonElement) list" where
  "merge_objects [] obj = obj"
| "merge_objects (JObject elem # i) obj = merge_objects i (insert_range elem obj)"
| "merge_objects (_ # i) obj = merge_objects i obj"

definition initializer_list :: "jsonElement list \<Rightarrow> jsonElement" where
  "initializer_list i =
     (case i of
        [JString name, v] \<Rightarrow> JObject [(name, v)]
      | _ \<Rightarrow>
        if list_all isObject i then JObject (merge_objects i [])
        else JArray (filter (\<lambda>it. \<not> isArrayTag it) i))"

subsection \<open>Mutable subscripts\<close>

text \<open>
  \<open>jsonElement &operator[] ( T index )\<close> for an integral \<open>T\<close>. The code uses the index
  only through \<open>(size_t) index\<close> and through \<open>arr[index]\<close>, which takes a \<open>size_t\<close>:
  the model takes that value. A value that is not an array is first replaced by the empty
  array. The result is the element after the call together with the element referred to;
  \<open>arr[index]\<close> past the end of the vector is \<open>OutOfBounds\<close>.
\<close>

definition arrayOf :: "jsonElement \<Rightarrow> jsonElement list" where
  "arrayOf e = (case e of JArray arr \<Rightarrow> arr | _ \<Rightarrow> [])"

definition resize :: "nat \<Rightarrow> jsonElement list \<Rightarrow> jsonElement list" where
  "resize n arr = (if n \<le> length arr then take n arr else arr @ replicate (n - length arr) JNull)"

definition subscript_index :: "jsonElement \<Rightarrow> nat \<Rightarrow> exn + (jsonElement \<times> jsonElement)" where
  "subscript_index e index =
     (let arr = arrayOf e;
          arr = (if index = length arr then resize (index + 1) arr else arr)
      in if index < length arr then Inr (JArray arr, arr ! index) else Inl OutOfBounds)"

text \<open>
  \<open>e[name] = v\<close> through \<open>jsonElement &operator[] ( T name )\<close>: a value that is not an
  object is first replaced by the empty object.
\<close>

definition objectOf :: "jsonElement \<Rightarrow> (string \<times> jsonElement) list" where
  "objectOf e = (case e of JObject obj \<Rightarrow> obj | _ \<Rightarrow> [])"

definition subscript_assign :: "jsonElement \<Rightarrow> string \<Rightarrow> jsonElement \<Rightarrow> jsonElement" where
  "subscript_assign e name v = JObject (map_assign name v (objectOf e))"

subsection \<open>Readers\<close>

text \<open>\<open>has\<close>: a member that holds null counts as absent.\<close>

definition has :: "jsonElement \<Rightarrow> string \<Rightarrow> bool" where
  "has e name =
     (case e of
        JObject obj \<Rightarrow>
          (case map_of obj name of
             Some JNull \<Rightarrow> False
           | Some _ \<Rightarrow> True
           | None \<Rightarrow> False)
      | _ \<Rightarrow> False)"

text \<open>\<open>jsonElement const &operator[] ( T const &name ) const\<close>\<close>

definition subscript_const :: "jsonElement \<Rightarrow> string \<Rightarrow> exn + jsonElement" where
  "subscript_const e name =
     (case e of
        JObject obj \<Rightarrow>
          (case map_of obj name of
             Some JNull \<Rightarrow> Inl (CString ''element not found'')
           | Some v \<Rightarrow> Inr v
           | None \<Rightarrow> Inl (CString ''element not found''))
      | _ \<Rightarrow> Inl (CString ''element not found''))"

text \<open>The \<open>const\<close> conversion operators: strict on the alternative held.\<close>

definition to_int64 :: "jsonElement \<Rightarrow> exn + int64" where
  "to_int64 e = (case e of JInt v \<Rightarrow> Inr v | _ \<Rightarrow> Inl (CString ''invalid json integer value''))"

definition to_bool :: "jsonElement \<Rightarrow> exn + bool" where
  "to_bool e = (case e of JBool v \<Rightarrow> Inr v | _ \<Rightarrow> Inl (CString ''invalid json integer value''))"

definition to_double :: "jsonElement \<Rightarrow> exn + double" where
  "to_double e = (case e of JDouble v \<Rightarrow> Inr v | _ \<Rightarrow> Inl (CString ''invalid json double value''))"

definition to_string :: "jsonElement \<Rightarrow> exn + string" where
  "to_string e = (case e of JString v \<Rightarrow> Inr v | _ \<Rightarrow> Inl (CString ''invalid json string value''))"

section \<open>The serializer\<close>

text \<open>
  What the C++ implementation leaves open and the code depends on: whether \<open>char\<close> is
  signed, the two conversions of the standard library for \<open>double\<close>, and the order in
  which the arguments of a call are initialized (\<open>argument_order\<close>, read by \<open>convert_all\<close>
  of the dispatcher).
\<close>

record platform =
  char_is_signed :: bool
  double_to_string :: "double \<Rightarrow> string"
  stod :: "string \<Rightarrow> exn + double"
  argument_order :: nat

text \<open>The value of a \<open>char\<close> after integral promotion.\<close>

definition char_to_int :: "bool \<Rightarrow> char \<Rightarrow> int" where
  "char_to_int sg c =
     (if sg \<and> 128 \<le> (of_char c :: nat) then int (of_char c) - 256 else int (of_char c))"

definition hexdigits :: string where
  "hexdigits = ''0123456789ABCDEF''"

text \<open>One byte of a string value, as the \<open>switch\<close> of \<open>serialize\<close> emits it.\<close>

definition serialize_char :: "bool \<Rightarrow> char \<Rightarrow> string" where
  "serialize_char sg it =
     (if it = CHR 0x22 then [CHR 0x5C, CHR 0x22]
      else if it = CHR 0x5C then [CHR 0x5C, CHR 0x5C]
      else if it = CHR 0x0D then [CHR 0x5C, CHR ''r'']
      else if it = CHR 0x0A then [CHR 0x5C, CHR ''n'']
      else if it = CHR 0x09 then [CHR 0x5C, CHR ''t'']
      else if char_to_int sg it < 32 \<or> char_to_int sg it > 127 then
        [CHR ''%'',
         hexdigits ! nat (drop_bit 4 (char_to_int sg it AND 0xF0)),
         hexdigits ! nat (char_to_int sg it AND 0x0F)]
      else [it])"

definition serialize_string :: "bool \<Rightarrow> string \<Rightarrow> string" where
  "serialize_string sg v = [CHR 0x22] @ concat (map (serialize_char sg) v) @ [CHR 0x22]"

text \<open>\<open>std::to_string ( int64_t )\<close>: the decimal digits, with a minus sign when negative.\<close>

definition digit_char :: "nat \<Rightarrow> char" where
  "digit_char d = char_of (48 + d)"

fun nat_to_string :: "nat \<Rightarrow> string" where
  "nat_to_string n = (if n < 10 then [digit_char n] else nat_to_string (n div 10) @ [digit_char (n mod 10)])"

declare nat_to_string.simps [simp del]

definition int_to_string :: "int \<Rightarrow> string" where
  "int_to_string i = (if i < 0 then CHR ''-'' # nat_to_string (nat (- i)) else nat_to_string (nat i))"

text \<open>
  \<open>void serialize ( std::string &buff, bool quoteNames ) const\<close> appends to \<open>buff\<close>: the
  model returns the text appended. Member names are appended as they are, without
  escaping. The \<open>array\<close> marker matches no branch and appends nothing.
\<close>

fun serialize :: "platform \<Rightarrow> bool \<Rightarrow> jsonElement \<Rightarrow> string"
  and serialize_members :: "platform \<Rightarrow> bool \<Rightarrow> bool \<Rightarrow> (string \<times> jsonElement) list \<Rightarrow> string"
  and serialize_elements :: "platform \<Rightarrow> bool \<Rightarrow> bool \<Rightarrow> jsonElement list \<Rightarrow> string"
where
  "serialize pf quoteNames (JObject obj) = ''{'' @ serialize_members pf quoteNames True obj @ ''}''"
| "serialize pf quoteNames (JArray arr) = ''['' @ serialize_elements pf quoteNames True arr @ '']''"
| "serialize pf quoteNames (JInt v) = int_to_string (sint v)"
| "serialize pf quoteNames (JDouble v) = double_to_string pf v"
| "serialize pf quoteNames (JString v) = serialize_string (char_is_signed pf) v"
| "serialize pf quoteNames (JBool v) = (if v then ''true'' else ''false'')"
| "serialize pf quoteNames JNull = ''null''"
| "serialize pf quoteNames JArrayTag = []"
| "serialize_members pf quoteNames first [] = []"
| "serialize_members pf quoteNames first ((name, v) # obj) =
     (if \<not> first then '','' else []) @
     (if quoteNames then [CHR 0x22] else []) @ name @ (if quoteNames then [CHR 0x22] else []) @
     '':'' @ serialize pf quoteNames v @ serialize_members pf quoteNames False obj"
| "serialize_elements pf quoteNames first [] = []"
| "serialize_elements pf quoteNames first (it # arr) =
     (if \<not> first then '','' else []) @
     serialize pf quoteNames it @ serialize_elements pf quoteNames False arr"


section \<open>The parser\<close>

text \<open>
  The parser reads a C string through \<open>char const **str\<close>. The model reads a list of
  bytes; \<open>peek\<close> is \<open>**str\<close>, which is the terminating NUL at the end of the list. The
  code never steps over a NUL, so the text after one is never read: \<open>c_str\<close> is the
  C string that a buffer holds.
\<close>

definition NUL :: char where
  "NUL = CHR 0x00"

definition c_str :: "string \<Rightarrow> string" where
  "c_str buff = takeWhile (\<lambda>c. c \<noteq> NUL) buff"

definition peek :: "string \<Rightarrow> char" where
  "peek str = (case str of [] \<Rightarrow> NUL | c # _ \<Rightarrow> c)"

definition isSpace :: "char \<Rightarrow> bool" where
  "isSpace c = (c = CHR '' '' \<or> c = CHR 0x09 \<or> c = CHR 0x0D \<or> c = CHR 0x0A)"

definition isSymbolB :: "char \<Rightarrow> bool" where
  "isSymbolB c = ((CHR ''a'' \<le> c \<and> c \<le> CHR ''z'') \<or> (CHR ''A'' \<le> c \<and> c \<le> CHR ''Z'') \<or> c = CHR ''_'')"

definition isNum :: "char \<Rightarrow> bool" where
  "isNum c = ((CHR ''0'' \<le> c \<and> c \<le> CHR ''9'') \<or> c = CHR ''+'' \<or> c = CHR ''-'')"

definition isNumB :: "char \<Rightarrow> bool" where
  "isNumB c = (isNum c \<or> c = CHR ''e'')"

definition isSymbol :: "char \<Rightarrow> bool" where
  "isSymbol c = (isSymbolB c \<or> (CHR ''0'' \<le> c \<and> c \<le> CHR ''9''))"

definition skipSpace :: "string \<Rightarrow> string" where
  "skipSpace str = dropWhile isSpace str"

text \<open>
  \<open>std::stoll\<close> on the text that the number branch collects: \<open>strtoll\<close> in base 10 skips
  white space, takes an optional sign and the digits that follow, and ignores the rest;
  no digit is \<open>std::invalid_argument\<close>, a value outside \<open>int64_t\<close> is
  \<open>std::out_of_range\<close>.
\<close>

definition isdigit :: "char \<Rightarrow> bool" where
  "isdigit c = (CHR ''0'' \<le> c \<and> c \<le> CHR ''9'')"

definition isspace :: "char \<Rightarrow> bool" where
  "isspace c = (c = CHR '' '' \<or> (CHR 0x09 \<le> c \<and> c \<le> CHR 0x0D))"

definition digits_to_nat :: "string \<Rightarrow> nat" where
  "digits_to_nat ds = foldl (\<lambda>a c. 10 * a + (of_char c - 48)) 0 ds"

definition stoll :: "string \<Rightarrow> exn + int64" where
  "stoll v =
     (let s = dropWhile isspace v;
          neg = (peek s = CHR ''-'');
          s = (if peek s = CHR ''-'' \<or> peek s = CHR ''+'' then tl s else s);
          ds = takeWhile isdigit s;
          i = (if neg then - int (digits_to_nat ds) else int (digits_to_nat ds))
      in if ds = [] then Inl InvalidArgument
         else if i < - (2 ^ 63) \<or> 2 ^ 63 \<le> i then Inl OutOfRange
         else Inr (word_of_int i))"

text \<open>
  The string branch, after the opening quote: \<open>v\<close> is the text collected so far. The
  result is the string and the input after the closing quote.
\<close>

fun parse_string :: "string \<Rightarrow> string \<Rightarrow> exn + (string \<times> string)" where
  "parse_string [] v = Inl (CString ''missing \"'')"
| "parse_string [c] v =
     (if c = NUL then Inl (CString ''missing \"'')
      else if c = CHR 0x22 then Inr (v, [])
      else parse_string [] (v @ [c]))"
| "parse_string (c # d # str) v =
     (if c = NUL then Inl (CString ''missing \"'')
      else if c = CHR 0x22 then Inr (v, d # str)
      else if c = CHR 0x5C \<and> d = CHR 0x22 then parse_string str (v @ [CHR 0x22])
      else if c = CHR 0x5C \<and> d = CHR ''r'' then parse_string str (v @ [CHR 0x0D])
      else if c = CHR 0x5C \<and> d = CHR ''n'' then parse_string str (v @ [CHR 0x0A])
      else if c = CHR 0x5C \<and> d = CHR ''t'' then parse_string str (v @ [CHR 0x09])
      else if c = CHR 0x5C \<and> d \<noteq> NUL then parse_string str (v @ [d])
      else parse_string (d # str) (v @ [c]))"

text \<open>The number branch: the text of \<open>isNum\<close> bytes, then \<open>std::stod\<close> or \<open>std::stoll\<close>.\<close>

definition parse_number :: "platform \<Rightarrow> string \<Rightarrow> exn + (jsonElement \<times> string)" where
  "parse_number pf str =
     (let v = takeWhile isNum str;
          isFloat = list_ex (\<lambda>c. c = CHR ''.'' \<or> c = CHR ''e'') v
      in if isFloat then
           (case stod pf v of Inl e \<Rightarrow> Inl e | Inr d \<Rightarrow> Inr (JDouble d, dropWhile isNum str))
         else
           (case stoll v of Inl e \<Rightarrow> Inl e | Inr i \<Rightarrow> Inr (JInt i, dropWhile isNum str)))"

text \<open>
  One turn of the object loop up to the member's value: the comma between members (with
  the closing brace that may follow it), the name, quoted or not, and the colon.
  \<open>member_comma\<close> also tells whether the loop ends at that brace.
\<close>

definition member_comma :: "bool \<Rightarrow> string \<Rightarrow> exn + (bool \<times> string)" where
  "member_comma first str =
     (if \<not> first then
        (if peek str \<noteq> CHR '','' then Inl (CString ''missing comma'')
         else let str = skipSpace (tl str)
              in if peek str = CHR ''}'' then Inr (True, tl str) else Inr (False, str))
      else Inr (False, str))"

definition member_name :: "string \<Rightarrow> exn + (string \<times> string)" where
  "member_name str =
     (if peek str = CHR 0x22 then
        (let name = takeWhile (\<lambda>c. c \<noteq> NUL \<and> c \<noteq> CHR 0x22) (tl str);
             str = dropWhile (\<lambda>c. c \<noteq> NUL \<and> c \<noteq> CHR 0x22) (tl str)
         in if peek str \<noteq> NUL then Inr (name, tl str) else Inl (CString ''missing \"''))
      else if \<not> isSymbol (peek str) then Inl (CString ''invalid json symbol value'')
      else Inr (takeWhile isSymbolB str, dropWhile isSymbolB str))"

definition member_colon :: "string \<Rightarrow> exn + string" where
  "member_colon str =
     (let str = skipSpace str
      in if peek str \<noteq> CHR '':'' then Inl (CString ''missing name/value separator'')
         else Inr (skipSpace (tl str)))"

definition element_comma :: "bool \<Rightarrow> string \<Rightarrow> exn + string" where
  "element_comma first str =
     (if \<not> first then
        (if peek str \<noteq> CHR '','' then Inl (CString ''missing comma'') else Inr (skipSpace (tl str)))
      else Inr str)"

text \<open>
  \<open>jsonElement ( char const **str )\<close>. The constructor calls itself for every member and
  element; the two loops are \<open>parse_members\<close> and \<open>parse_elements\<close>. The first argument
  bounds the number of calls and loop turns: \<open>None\<close> is a bound that was too small, any
  other result is the result of the code, \<open>Inl\<close> what it throws and \<open>Inr\<close> the value
  together with the input left.
\<close>

fun parse_value :: "platform \<Rightarrow> nat \<Rightarrow> string \<Rightarrow> (exn + (jsonElement \<times> string)) option"
  and parse_members :: "platform \<Rightarrow> nat \<Rightarrow> bool \<Rightarrow> (string \<times> jsonElement) list \<Rightarrow> string \<Rightarrow>
    (exn + ((string \<times> jsonElement) list \<times> string)) option"
  and parse_elements :: "platform \<Rightarrow> nat \<Rightarrow> bool \<Rightarrow> jsonElement list \<Rightarrow> string \<Rightarrow>
    (exn + (jsonElement list \<times> string)) option"
where
  "parse_value pf 0 str = None"
| "parse_value pf (Suc n) str0 =
     (let str = skipSpace str0 in
      if peek str = CHR ''{'' then
        (case parse_members pf n True [] (tl str) of
           None \<Rightarrow> None
         | Some (Inl e) \<Rightarrow> Some (Inl e)
         | Some (Inr (obj, rest)) \<Rightarrow> Some (Inr (JObject obj, rest)))
      else if peek str = CHR ''['' then
        (case parse_elements pf n True [] (tl str) of
           None \<Rightarrow> None
         | Some (Inl e) \<Rightarrow> Some (Inl e)
         | Some (Inr (arr, rest)) \<Rightarrow> Some (Inr (JArray arr, rest)))
      else if peek str = CHR 0x22 then
        (case parse_string (tl str) [] of
           Inl e \<Rightarrow> Some (Inl e)
         | Inr (v, rest) \<Rightarrow> Some (Inr (JString v, rest)))
      else if isNumB (peek str) then Some (parse_number pf str)
      else if take 4 str = ''true'' then Some (Inr (JBool True, drop 4 str))
      else if take 5 str = ''false'' then Some (Inr (JBool False, drop 5 str))
      else if take 4 str = ''null'' then Some (Inr (JNull, drop 4 str))
      else Some (Inl (CString ''missing \"'')))"
| "parse_members pf 0 first obj str = None"
| "parse_members pf (Suc n) first obj str0 =
     (let str = skipSpace str0 in
      if peek str = CHR ''}'' then Some (Inr (obj, tl str))
      else
        (case member_comma first str of
           Inl e \<Rightarrow> Some (Inl e)
         | Inr (True, rest) \<Rightarrow> Some (Inr (obj, rest))
         | Inr (False, str) \<Rightarrow>
           (case member_name str of
              Inl e \<Rightarrow> Some (Inl e)
            | Inr (name, str) \<Rightarrow>
              (case member_colon str of
                 Inl e \<Rightarrow> Some (Inl e)
               | Inr str \<Rightarrow>
                 (case parse_value pf n str of
                    None \<Rightarrow> None
                  | Some (Inl e) \<Rightarrow> Some (Inl e)
                  | Some (Inr (v, rest)) \<Rightarrow> parse_members pf n False (map_assign name v obj) rest)))))"
| "parse_elements pf 0 first arr str = None"
| "parse_elements pf (Suc n) first arr str0 =
     (let str = skipSpace str0 in
      if peek str = CHR '']'' then Some (Inr (arr, tl str))
      else
        (case element_comma first str of
           Inl e \<Rightarrow> Some (Inl e)
         | Inr str \<Rightarrow>
           (case parse_value pf n str of
              None \<Rightarrow> None
            | Some (Inl e) \<Rightarrow> Some (Inl e)
            | Some (Inr (v, rest)) \<Rightarrow> parse_elements pf n False (arr @ [v]) rest)))"

text \<open>
  \<open>jsonParser\<close>: one value, then white space only. Every call and every loop turn but
  the first turn of a loop follows at least one byte read, so twice the length of the
  input bounds them.
\<close>

definition jsonParser :: "platform \<Rightarrow> string \<Rightarrow> (exn + jsonElement) option" where
  "jsonParser pf str =
     (case parse_value pf (2 * length str + 2) str of
        None \<Rightarrow> None
      | Some (Inl e) \<Rightarrow> Some (Inl e)
      | Some (Inr (result, rest)) \<Rightarrow>
          if peek (skipSpace rest) \<noteq> NUL then Some (Inl (CString ''invalid json''))
          else Some (Inr result))"


section \<open>The dispatcher (dabClient.h)\<close>

subsection \<open>\<open>nativeDispatch\<close>\<close>

text \<open>
  The parameter types \<open>Args...\<close> of the handlers of this repository:
  \<open>std::string const &\<close>, \<open>int64_t\<close>, \<open>bool\<close>, \<open>double\<close> and \<open>jsonElement const &\<close>.
  An \<open>arg\<close> is a value of one of them.
\<close>

datatype ptype = TString | TInt64 | TBool | TDouble | TJson

datatype arg = AString string | AInt64 int64 | ABool bool | ADouble double | AJson jsonElement

text \<open>
  The pack \<open>vs...\<close> collects, for each parameter, either a reference to the element
  found in the request or the temporary \<open>Head{}\<close>.
\<close>

datatype actual = Ref jsonElement | Temp arg

text \<open>
  \<open>Head{}\<close>: the value-initialized object of the parameter's type. For
  \<open>jsonElement const &\<close> this is the default constructor \<open>jsonElement ()\<close>, which leaves
  the variant at \<open>std::monostate\<close>.
\<close>

fun default_value :: "ptype \<Rightarrow> arg" where
  "default_value TString = AString []"
| "default_value TInt64 = AInt64 0"
| "default_value TBool = ABool False"
| "default_value TDouble = ADouble 0"
| "default_value TJson = AJson JNull"

text \<open>
  The handler is called with \<open>vs...\<close>: a reference is converted to the parameter's type by
  the \<open>const\<close> conversion operator of \<open>jsonElement\<close>, which throws on another alternative.
\<close>

fun convert :: "ptype \<Rightarrow> actual \<Rightarrow> exn + arg" where
  "convert t (Temp a) = Inr a"
| "convert TString (Ref e) = (case to_string e of Inl x \<Rightarrow> Inl x | Inr v \<Rightarrow> Inr (AString v))"
| "convert TInt64 (Ref e) = (case to_int64 e of Inl x \<Rightarrow> Inl x | Inr v \<Rightarrow> Inr (AInt64 v))"
| "convert TBool (Ref e) = (case to_bool e of Inl x \<Rightarrow> Inl x | Inr v \<Rightarrow> Inr (ABool v))"
| "convert TDouble (Ref e) = (case to_double e of Inl x \<Rightarrow> Inl x | Inr v \<Rightarrow> Inr (ADouble v))"
| "convert TJson (Ref e) = Inr (AJson e)"

text \<open>
  C++ leaves the order open in which the arguments of the call are converted (g++ goes
  from right to left, clang from left to right): when several conversions throw, the
  call throws the exception of the one that comes first in that order, which can be any
  of them. \<open>thrown\<close> collects the exceptions of the conversions that throw, \<open>converted\<close>
  the values of the others, and \<open>order\<close> selects the exception that leaves the call.
\<close>

fun thrown :: "(exn + arg) list \<Rightarrow> exn list" where
  "thrown [] = []"
| "thrown (Inl x # rs) = x # thrown rs"
| "thrown (Inr a # rs) = thrown rs"

fun converted :: "(exn + arg) list \<Rightarrow> arg list" where
  "converted [] = []"
| "converted (Inl x # rs) = converted rs"
| "converted (Inr a # rs) = a # converted rs"

definition convert_all :: "nat \<Rightarrow> ptype list \<Rightarrow> actual list \<Rightarrow> exn + arg list" where
  "convert_all order ts vs =
     (if thrown (map2 convert ts vs) = [] then Inr (converted (map2 convert ts vs))
      else Inl (thrown (map2 convert ts vs) ! (order mod length (thrown (map2 convert ts vs)))))"

text \<open>
  One \<open>nativeDispatch\<close> object: the names of the fixed and of the optional parameters,
  the types \<open>Args...\<close> and the return type of the handler, and the handler itself, which
  returns a value or throws.
\<close>

record nativeDispatch =
  fixedParams :: "string list"
  optionalParams :: "string list"
  Args :: "ptype list"
  returns_void :: bool
  funcPtr :: "arg list \<Rightarrow> exn + jsonElement"

text \<open>
  A dispatch yields the arguments with which the handler was called, if it was called,
  and what the dispatcher returns or throws.
\<close>

type_synonym dispatched = "arg list option \<times> (exn + jsonElement)"

definition call_handler :: "platform \<Rightarrow> nativeDispatch \<Rightarrow> actual list \<Rightarrow> dispatched" where
  "call_handler pf d vs =
     (case convert_all (argument_order pf) (Args d) vs of
        Inl x \<Rightarrow> (None, Inl x)
      | Inr as \<Rightarrow>
          (Some as,
           case funcPtr d as of
             Inl x \<Rightarrow> Inl x
           | Inr r \<Rightarrow> Inr (if returns_void d then JNull else r)))"

text \<open>
  \<open>callOptional<fixed, optional>\<close>: the second argument is \<open>optional\<close>, the list is
  \<open>types<Head, Tail...>\<close>.
\<close>

fun callOptional :: "platform \<Rightarrow> nativeDispatch \<Rightarrow> jsonElement \<Rightarrow> nat \<Rightarrow> ptype list \<Rightarrow> actual list \<Rightarrow> dispatched" where
  "callOptional pf d elem optional [] vs = call_handler pf d vs"
| "callOptional pf d elem optional (Head # Tail) vs =
     (if length (optionalParams d) \<le> optional then (None, Inl OutOfBounds)
      else
        (case subscript_const elem ''payload'' of
           Inl x \<Rightarrow> (None, Inl x)
         | Inr payload \<Rightarrow>
             if has payload (optionalParams d ! optional) then
               (case subscript_const payload (optionalParams d ! optional) of
                  Inl x \<Rightarrow> (None, Inl x)
                | Inr v \<Rightarrow> callOptional pf d elem (optional + 1) Tail (vs @ [Ref v]))
             else if has elem (optionalParams d ! optional) then
               (case subscript_const elem (optionalParams d ! optional) of
                  Inl x \<Rightarrow> (None, Inl x)
                | Inr v \<Rightarrow> callOptional pf d elem (optional + 1) Tail (vs @ [Ref v]))
             else callOptional pf d elem (optional + 1) Tail (vs @ [Temp (default_value Head)])))"

text \<open>
  \<open>callFixed<fixed, optional>\<close>, always entered with \<open>optional = 0\<close>. The message names
  the parameter through \<open>fixedParams[fixed].data ()\<close>, a C string.
\<close>

definition missing_parameter :: "string \<Rightarrow> exn" where
  "missing_parameter name = DabException 400 (''missing parameter \"'' @ c_str name @ ''\"'')"

fun callFixed :: "platform \<Rightarrow> nativeDispatch \<Rightarrow> jsonElement \<Rightarrow> nat \<Rightarrow> ptype list \<Rightarrow> actual list \<Rightarrow> dispatched" where
  "callFixed pf d elem fixed [] vs = call_handler pf d vs"
| "callFixed pf d elem fixed (Head # Tail) vs =
     (if fixed < length (fixedParams d) then
        (case subscript_const elem ''payload'' of
           Inl x \<Rightarrow> (None, Inl x)
         | Inr payload \<Rightarrow>
             if has payload (fixedParams d ! fixed) then
               (case subscript_const payload (fixedParams d ! fixed) of
                  Inl x \<Rightarrow> (None, Inl x)
                | Inr v \<Rightarrow> callFixed pf d elem (fixed + 1) Tail (vs @ [Ref v]))
             else if has elem (fixedParams d ! fixed) then
               (case subscript_const elem (fixedParams d ! fixed) of
                  Inl x \<Rightarrow> (None, Inl x)
                | Inr v \<Rightarrow> callFixed pf d elem (fixed + 1) Tail (vs @ [Ref v]))
             else if fixedParams d ! fixed = ''*'' then
               callFixed pf d elem (fixed + 1) Tail (vs @ [Ref elem])
             else (None, Inl (missing_parameter (fixedParams d ! fixed))))
      else callOptional pf d elem 0 (Head # Tail) vs)"

text \<open>\<open>jsonElement operator() ( T *cls, jsonElement const &elem )\<close>\<close>

definition native_call :: "platform \<Rightarrow> nativeDispatch \<Rightarrow> jsonElement \<Rightarrow> dispatched" where
  "native_call pf d elem = callFixed pf d elem 0 (Args d) []"

text \<open>
  The two \<open>static_assert\<close>s of the overloads for \<open>types<>\<close> admit only a dispatcher whose
  handler has one parameter for each name.
\<close>

definition well_formed :: "nativeDispatch \<Rightarrow> bool" where
  "well_formed d = (length (Args d) = length (fixedParams d) + length (optionalParams d))"

text \<open>
  The line of \<open>METHODS\<close> for \<open>/applications/launch\<close>, whose handler is
  \<open>jsonElement appLaunch ( std::string const &appId, jsonElement const &elem )\<close>.
\<close>

definition appLaunch_dispatch :: "(arg list \<Rightarrow> exn + jsonElement) \<Rightarrow> nativeDispatch" where
  "appLaunch_dispatch appLaunch =
     \<lparr>fixedParams = [''appId''], optionalParams = [''parameters''], Args = [TString, TJson],
      returns_void = False, funcPtr = appLaunch\<rparr>"

subsection \<open>\<open>dabClient::dispatch\<close>\<close>

text \<open>
  The four handlers of \<open>dispatch\<close> all build the response with
  \<open>rsp = { { "status", code, "error", text } }\<close>: the inner braces are an initializer list
  of four elements, the outer braces one of a single element.
\<close>

definition error_response :: "int64 \<Rightarrow> string \<Rightarrow> jsonElement" where
  "error_response code text =
     initializer_list [initializer_list [JString ''status'', JInt code, JString ''error'', JString text]]"

definition catch_all :: "exn \<Rightarrow> jsonElement" where
  "catch_all e =
     (case e of
        PairIntString code text \<Rightarrow> error_response (scast code) text
      | PairIntCString code text \<Rightarrow> error_response (scast code) text
      | DabException code text \<Rightarrow> error_response code text
      | _ \<Rightarrow> error_response 400 ''unable to parse request'')"

text \<open>
  \<open>dispatchMap\<close> maps a topic to its dispatcher and to the flag that tells whether the
  adapter implements the operation. The result is the response, with the arguments of the
  handler if one was called.
\<close>

type_synonym dispatchMap = "(string \<times> nativeDispatch \<times> bool) list"

definition dispatch :: "platform \<Rightarrow> dispatchMap \<Rightarrow> jsonElement \<Rightarrow> arg list option \<times> jsonElement" where
  "dispatch pf dm elem =
     (case subscript_const elem ''topic'' of
        Inl x \<Rightarrow> (None, catch_all x)
      | Inr t \<Rightarrow>
          (case to_string t of
             Inl x \<Rightarrow> (None, catch_all x)
           | Inr topic \<Rightarrow>
               (case (case map_of dm topic of
                        Some (d, implemented) \<Rightarrow> native_call pf d elem
                      | None \<Rightarrow> (None, Inr JNull)) of
                  (called, Inl x) \<Rightarrow> (called, catch_all x)
                | (called, Inr rsp) \<Rightarrow>
                    (called,
                     if \<not> has rsp ''status'' then subscript_assign rsp ''status'' (JInt 200)
                     else rsp))))"

section \<open>The telemetry scheduler\<close>

text \<open>
  A time point of \<open>std::chrono::steady_clock\<close> counts nanoseconds in a signed 64-bit
  integer (libstdc++, libc++ and the Microsoft library agree on this), and an interval is
  a \<open>std::chrono::milliseconds\<close>, a signed 64-bit count of milliseconds that
  \<open>deviceTelemetryStartInternal\<close> and \<open>appTelemetryStartInternal\<close> make from the \<open>int64_t\<close>
  of the request. A reading of the clock is an \<open>int64\<close>; a key of the scheduler is the
  value of such a count.

  An entry of \<open>telemetryScheduler\<close> is keyed by its next time and holds the subject id, the
  topic to publish on and the executor \<open>telemetry<F>\<close>: the interval and the callback.
  The keys of the \<open>std::map\<close> are unique.
\<close>

type_synonym time_point = int

record telemetry =
  interval :: int64
  callback :: "unit \<Rightarrow> exn + jsonElement"

type_synonym scheduler = "(time_point \<times> string \<times> string \<times> telemetry) list"

text \<open>The values of a signed 64-bit integer.\<close>

definition in_int64 :: "int \<Rightarrow> bool" where
  "in_int64 i = (- 9223372036854775808 \<le> i \<and> i \<le> 9223372036854775807)"

text \<open>
  \<open>telemetry<F>::getNextScheduledTime\<close>, \<open>steady_clock::now () + interval\<close>, with \<open>now\<close> the
  reading of the clock: \<open>operator+\<close> converts the interval to the duration of the clock,
  which multiplies its count by 1000000, and adds the two counts, both in signed 64-bit
  arithmetic.
\<close>

definition getNextScheduledTime :: "int64 \<Rightarrow> telemetry \<Rightarrow> exn + time_point" where
  "getNextScheduledTime now ex =
     (if \<not> in_int64 (sint (interval ex) * 1000000) then Inl SignedOverflow
      else if \<not> in_int64 (sint now + sint (interval ex) * 1000000) then Inl SignedOverflow
      else Inr (sint now + sint (interval ex) * 1000000))"

text \<open>The loop of \<open>addTelemetry\<close> and \<open>deleteTelemetry\<close> over the entries, in key order.\<close>

fun setInterval :: "string \<Rightarrow> int64 \<Rightarrow> scheduler \<Rightarrow> scheduler option" where
  "setInterval sid newInterval [] = None"
| "setInterval sid newInterval ((t, sid', topic, ex) # sched) =
     (if sid' = sid then Some ((t, sid', topic, ex\<lparr>interval := newInterval\<rparr>) # sched)
      else (case setInterval sid newInterval sched of
              None \<Rightarrow> None
            | Some sched' \<Rightarrow> Some ((t, sid', topic, ex) # sched')))"

text \<open>
  \<open>addTelemetry\<close>; \<open>now\<close> is the reading of \<open>std::chrono::steady_clock::now ()\<close>. The
  source comments the insertion with \<open>schedule for NOW so we send one immediately\<close>;
  \<open>std::map::insert\<close> adds nothing when the key is in the map.
\<close>

definition addTelemetry ::
  "int64 \<Rightarrow> int64 \<Rightarrow> string \<Rightarrow> string \<Rightarrow> (unit \<Rightarrow> exn + jsonElement) \<Rightarrow> scheduler \<Rightarrow> scheduler" where
  "addTelemetry now newInterval sid topic getTelemetryCallback sched =
     (case setInterval sid newInterval sched of
        Some sched' \<Rightarrow> sched'
      | None \<Rightarrow>
          map_insert (sint now)
            (sid, topic, \<lparr>interval = newInterval, callback = getTelemetryCallback\<rparr>) sched)"

fun deleteTelemetry :: "string \<Rightarrow> scheduler \<Rightarrow> scheduler" where
  "deleteTelemetry sid [] = []"
| "deleteTelemetry sid ((t, sid', topic, ex) # sched) =
     (if sid' = sid then sched else (t, sid', topic, ex) # deleteTelemetry sid sched)"

text \<open>A sequence of calls of the two.\<close>

datatype telemetry_call =
    Add int64 int64 string string "unit \<Rightarrow> exn + jsonElement"
  | Delete string

fun run_call :: "telemetry_call \<Rightarrow> scheduler \<Rightarrow> scheduler" where
  "run_call (Add now newInterval sid topic cb) sched = addTelemetry now newInterval sid topic cb sched"
| "run_call (Delete sid) sched = deleteTelemetry sid sched"

fun run_calls :: "telemetry_call list \<Rightarrow> scheduler \<Rightarrow> scheduler" where
  "run_calls [] sched = sched"
| "run_calls (c # cs) sched = run_calls cs (run_call c sched)"

definition subjects :: "scheduler \<Rightarrow> string list" where
  "subjects sched = map (\<lambda>entry. fst (snd entry)) sched"

definition entries_of :: "string \<Rightarrow> scheduler \<Rightarrow> scheduler" where
  "entries_of sid sched = filter (\<lambda>entry. fst (snd entry) = sid) sched"

text \<open>
  \<open>dabInterface::publish\<close> calls \<open>publishCallback\<close>, a \<open>std::function\<close> that throws
  \<open>std::bad_function_call\<close> while it is empty.
\<close>

definition publish :: "bool \<Rightarrow> jsonElement \<Rightarrow> jsonElement list \<Rightarrow> exn + jsonElement list" where
  "publish callback_set elem published =
     (if callback_set then Inr (published @ [elem]) else Inl BadFunctionCall)"

text \<open>
  One pass of the loop of \<open>telemetryTask\<close>, after the wait has returned. \<open>now\<close> is the
  reading of the clock in the comparison, \<open>now'\<close> the later reading in
  \<open>getNextScheduledTime\<close>. The result is the scheduler, the subjects whose callback was
  called and the messages published; an exception leaves the loop and the thread.
  A node whose new key is already in the map is not inserted and is destroyed with the
  value that \<open>insert\<close> returns.
\<close>

record pass =
  scheduled :: scheduler
  produced :: "string list"
  published :: "jsonElement list"

definition telemetryTask :: "bool \<Rightarrow> int64 \<Rightarrow> int64 \<Rightarrow> scheduler \<Rightarrow> exn + pass" where
  "telemetryTask callback_set now now' sched =
     (case sched of
        [] \<Rightarrow> Inr \<lparr>scheduled = sched, produced = [], published = []\<rparr>
      | (t, sid, topic, ex) # rest \<Rightarrow>
          if t < sint now then
            (case callback ex () of
               Inl x \<Rightarrow> Inl x
             | Inr rsp \<Rightarrow>
                 (case publish callback_set
                         (initializer_list
                            [initializer_list [JString ''topic'', JString topic],
                             initializer_list [JString ''payload'', rsp]]) [] of
                    Inl x \<Rightarrow> Inl x
                  | Inr msgs \<Rightarrow>
                      (case getNextScheduledTime now' ex of
                         Inl x \<Rightarrow> Inl x
                       | Inr key \<Rightarrow>
                           Inr \<lparr>scheduled = map_insert key (sid, topic, ex) rest,
                                produced = [sid], published = msgs\<rparr>)))
          else Inr \<lparr>scheduled = sched, produced = [], published = []\<rparr>)"

section \<open>The bridge (dabBridge.h)\<close>

text \<open>
  \<open>instances\<close> maps a device id to its adapter; the entries of the \<open>std::map\<close> are held
  in ascending order of the device ids. The bridge uses an adapter only through
  \<open>dabInterface::dispatch\<close>; \<open>dabClient::dispatch\<close> catches every exception, so an
  adapter is a function from the request to the response. \<open>callback_set\<close> tells whether
  \<open>publishCallback\<close> of the bridge holds a function.
\<close>

record dabBridge =
  instances :: "(string \<times> (jsonElement \<Rightarrow> jsonElement)) list"
  callback_set :: bool

text \<open>
  What a dispatch of the bridge yields: the result, the device ids of the adapters whose
  \<open>dispatch\<close> was called, in the order of the calls, and the messages passed to
  \<open>publishCallback\<close>.
\<close>

record routed =
  result :: "exn + jsonElement"
  adapters_called :: "string list"
  bridge_published :: "jsonElement list"

fun starts_with :: "string \<Rightarrow> string \<Rightarrow> bool" where
  "starts_with string [] = True"
| "starts_with [] (p # pattern) = (p = NUL)"
| "starts_with (s # string) (p # pattern) =
     (if p = NUL then True else if s = p then starts_with string pattern else False)"

text \<open>\<open>std::string_view::find_first_of\<close>: \<open>None\<close> is \<open>npos\<close>.\<close>

fun find_first_of :: "string \<Rightarrow> char \<Rightarrow> nat option" where
  "find_first_of [] c = None"
| "find_first_of (x # xs) c =
     (if x = c then Some 0 else (case find_first_of xs c of None \<Rightarrow> None | Some n \<Rightarrow> Some (n + 1)))"

text \<open>The loop of the discovery branch over the instances after the first.\<close>

fun discover_rest :: "bool \<Rightarrow> jsonElement \<Rightarrow> (string \<times> (jsonElement \<Rightarrow> jsonElement)) list \<Rightarrow>
    string list \<Rightarrow> jsonElement list \<Rightarrow> exn option \<times> string list \<times> jsonElement list" where
  "discover_rest cb json [] called msgs = (None, called, msgs)"
| "discover_rest cb json ((name, adapter) # rest) called msgs =
     (case publish cb (adapter json) msgs of
        Inl x \<Rightarrow> (Some x, called @ [name], msgs)
      | Inr msgs' \<Rightarrow> discover_rest cb json rest (called @ [name]) msgs')"

definition throw :: "exn \<Rightarrow> routed" where
  "throw x = \<lparr>result = Inl x, adapters_called = [], bridge_published = []\<rparr>"

definition bridge_dispatch :: "dabBridge \<Rightarrow> jsonElement \<Rightarrow> routed" where
  "bridge_dispatch bridge json =
     (if has json ''topic'' then
        (case subscript_const json ''topic'' of
           Inl x \<Rightarrow> throw x
         | Inr t \<Rightarrow>
             (case to_string t of
                Inl x \<Rightarrow> throw x
              | Inr topic \<Rightarrow>
                  if topic = ''dab/discovery'' then
                    (case instances bridge of
                       [] \<Rightarrow> throw OutOfBounds
                     | (name, adapter) # rest \<Rightarrow>
                         (case discover_rest (callback_set bridge) json rest [] [] of
                            (Some x, called, msgs) \<Rightarrow>
                              \<lparr>result = Inl x, adapters_called = called, bridge_published = msgs\<rparr>
                          | (None, called, msgs) \<Rightarrow>
                              \<lparr>result = Inr (adapter json), adapters_called = called @ [name],
                               bridge_published = msgs\<rparr>))
                  else if starts_with (c_str topic) ''dab/'' then
                    (case find_first_of (drop 4 topic) (CHR ''/'') of
                       None \<Rightarrow> throw (DabException 400 ''topic is malformed'')
                     | Some slashPos \<Rightarrow>
                         (case map_of (instances bridge) (take slashPos (drop 4 topic)) of
                            Some adapter \<Rightarrow>
                              \<lparr>result = Inr (adapter json),
                               adapters_called = [take slashPos (drop 4 topic)],
                               bridge_published = []\<rparr>
                          | None \<Rightarrow> throw (DabException 400 ''deviceId does not exist'')))
                  else throw (DabException 400 ''topic is malformed'')))
      else throw (DabException 400 ''no topic found''))"

text \<open>
  The words in which the discovery of the bridge is specified: the device ids of the
  registry in ascending order, and the response of the adapter that is registered under
  a device id.
\<close>

definition device_ids :: "dabBridge \<Rightarrow> string list" where
  "device_ids bridge = sorted_list_of_set (fst ` set (instances bridge))"

definition response_of :: "dabBridge \<Rightarrow> jsonElement \<Rightarrow> string \<Rightarrow> jsonElement" where
  "response_of bridge json deviceId =
     (case map_of (instances bridge) deviceId of Some adapter \<Rightarrow> adapter json | None \<Rightarrow> JNull)"


section \<open>What the codec is to satisfy\<close>

text \<open>
  The escaping of a string value as the specification words it: the five characters
  with a backslash escape, a percent sign and two uppercase hexadecimal digits for a byte
  below 0x20 or above 0x7F, and any other byte as it is.
\<close>

definition upper_hex :: "nat \<Rightarrow> char" where
  "upper_hex d = (if d < 10 then char_of (48 + d) else char_of (55 + d))"

definition escape_byte :: "char \<Rightarrow> string" where
  "escape_byte c =
     (if c = CHR 0x22 then [CHR 0x5C, CHR 0x22]
      else if c = CHR 0x5C then [CHR 0x5C, CHR 0x5C]
      else if c = CHR 0x0D then [CHR 0x5C, CHR ''r'']
      else if c = CHR 0x0A then [CHR 0x5C, CHR ''n'']
      else if c = CHR 0x09 then [CHR 0x5C, CHR ''t'']
      else if (of_char c :: nat) < 0x20 \<or> 0x7F < (of_char c :: nat) then
        [CHR ''%'', upper_hex (of_char c div 16), upper_hex (of_char c mod 16)]
      else [c])"

text \<open>
  What a reader that does not know the percent encoding gets back for one byte of a
  string value: the byte itself, or the three characters of its percent encoding.
\<close>

definition reread_byte :: "char \<Rightarrow> string" where
  "reread_byte c =
     (if (of_char c :: nat) < 0x20 \<and> c \<noteq> CHR 0x0D \<and> c \<noteq> CHR 0x0A \<and> c \<noteq> CHR 0x09
         \<or> 0x7F < (of_char c :: nat)
      then [CHR ''%'', upper_hex (of_char c div 16), upper_hex (of_char c mod 16)]
      else [c])"

fun reread :: "jsonElement \<Rightarrow> jsonElement"
  and reread_members :: "(string \<times> jsonElement) list \<Rightarrow> (string \<times> jsonElement) list"
  and reread_elements :: "jsonElement list \<Rightarrow> jsonElement list"
where
  "reread (JString v) = JString (concat (map reread_byte v))"
| "reread (JObject obj) = JObject (reread_members obj)"
| "reread (JArray arr) = JArray (reread_elements arr)"
| "reread JNull = JNull"
| "reread (JInt v) = JInt v"
| "reread (JDouble v) = JDouble v"
| "reread (JBool v) = JBool v"
| "reread JArrayTag = JArrayTag"
| "reread_members [] = []"
| "reread_members ((name, v) # obj) = (name, reread v) # reread_members obj"
| "reread_elements [] = []"
| "reread_elements (it # arr) = reread it # reread_elements arr"

text \<open>
  The values for which reading back is stated: no \<open>double\<close> and no \<open>array\<close> marker, and
  member names without a double quote and without a NUL byte (names are written and read
  without escaping).
\<close>

definition plain_name :: "string \<Rightarrow> bool" where
  "plain_name name = list_all (\<lambda>c. c \<noteq> NUL \<and> c \<noteq> CHR 0x22) name"

fun plain :: "jsonElement \<Rightarrow> bool"
  and plain_members :: "(string \<times> jsonElement) list \<Rightarrow> bool"
  and plain_elements :: "jsonElement list \<Rightarrow> bool"
where
  "plain (JObject obj) = plain_members obj"
| "plain (JArray arr) = plain_elements arr"
| "plain (JDouble v) = False"
| "plain JArrayTag = False"
| "plain JNull = True"
| "plain (JInt v) = True"
| "plain (JString v) = True"
| "plain (JBool v) = True"
| "plain_members [] = True"
| "plain_members ((name, v) # obj) = (plain_name name \<and> plain v \<and> plain_members obj)"
| "plain_elements [] = True"
| "plain_elements (it # arr) = (plain it \<and> plain_elements arr)"

text \<open>The invariant of \<open>std::map\<close>: in every object the names are strictly increasing.\<close>

fun ordered :: "jsonElement \<Rightarrow> bool"
  and ordered_members :: "(string \<times> jsonElement) list \<Rightarrow> bool"
  and ordered_elements :: "jsonElement list \<Rightarrow> bool"
where
  "ordered (JObject obj) = (sorted_wrt (<) (map fst obj) \<and> ordered_members obj)"
| "ordered (JArray arr) = ordered_elements arr"
| "ordered JNull = True"
| "ordered (JInt v) = True"
| "ordered (JDouble v) = True"
| "ordered (JString v) = True"
| "ordered (JBool v) = True"
| "ordered JArrayTag = True"
| "ordered_members [] = True"
| "ordered_members ((name, v) # obj) = (ordered v \<and> ordered_members obj)"
| "ordered_elements [] = True"
| "ordered_elements (it # arr) = (ordered it \<and> ordered_elements arr)"

text \<open>
  String values of printable ASCII: bytes from 0x20 to 0x7F, with carriage return, line
  feed and tab, which have an escape of their own.
\<close>

definition printable_byte :: "char \<Rightarrow> bool" where
  "printable_byte c =
     (c = CHR 0x0D \<or> c = CHR 0x0A \<or> c = CHR 0x09 \<or>
      (0x20 \<le> (of_char c :: nat) \<and> (of_char c :: nat) \<le> 0x7F))"

fun printable :: "jsonElement \<Rightarrow> bool"
  and printable_members :: "(string \<times> jsonElement) list \<Rightarrow> bool"
  and printable_elements :: "jsonElement list \<Rightarrow> bool"
where
  "printable (JString v) = list_all printable_byte v"
| "printable (JObject obj) = printable_members obj"
| "printable (JArray arr) = printable_elements arr"
| "printable JNull = True"
| "printable (JInt v) = True"
| "printable (JDouble v) = True"
| "printable (JBool v) = True"
| "printable JArrayTag = True"
| "printable_members [] = True"
| "printable_members ((name, v) # obj) = (printable v \<and> printable_members obj)"
| "printable_elements [] = True"
| "printable_elements (it # arr) = (printable it \<and> printable_elements arr)"


section \<open>Sample inputs\<close>

text \<open>
  A platform with a signed \<open>char\<close>. Its two conversions for \<open>double\<close> stand for the
  library's: \<open>0.000000\<close> is what \<open>std::to_string\<close> returns for 0.0, the only \<open>double\<close>
  among the samples, and \<open>std::stod\<close> is never reached by them. No sample call has more
  than one argument whose conversion throws, so the order of the arguments does not show.
\<close>

definition sample_platform :: platform where
  "sample_platform =
     \<lparr>char_is_signed = True, double_to_string = (\<lambda>d. ''0.000000''),
      stod = (\<lambda>v. Inl InvalidArgument), argument_order = 0\<rparr>"

text \<open>The stub of \<open>dabClient\<close> for an operation that the adapter does not override.\<close>

definition unsupported :: "arg list \<Rightarrow> exn + jsonElement" where
  "unsupported as = Inl (DabException 501 ''unsupported'')"

text \<open>\<open>dabClient::discovery\<close> and its dispatcher, registered under \<open>dab/discovery\<close>.\<close>

definition discovery :: "string \<Rightarrow> string \<Rightarrow> jsonElement" where
  "discovery ipAddress deviceId =
     initializer_list
       [initializer_list [JString ''ip'', JString ipAddress],
        initializer_list [JString ''deviceId'', JString deviceId]]"

definition discovery_dispatch :: "string \<Rightarrow> string \<Rightarrow> nativeDispatch" where
  "discovery_dispatch ipAddress deviceId =
     \<lparr>fixedParams = [], optionalParams = [], Args = [], returns_void = False,
      funcPtr = (\<lambda>as. Inr (discovery ipAddress deviceId))\<rparr>"

text \<open>
  An adapter with the device id, as far as the samples need it: the entries of its
  \<open>dispatchMap\<close> for \<open>dab/discovery\<close> and for \<open>/applications/launch\<close>, the latter with
  the stub.
\<close>

definition sample_dispatchMap :: "string \<Rightarrow> string \<Rightarrow> dispatchMap" where
  "sample_dispatchMap ipAddress deviceId =
     [(''dab/'' @ deviceId @ ''/applications/launch'', appLaunch_dispatch unsupported, False),
      (''dab/discovery'', discovery_dispatch ipAddress deviceId, False)]"

definition sample_adapter :: "string \<Rightarrow> string \<Rightarrow> jsonElement \<Rightarrow> jsonElement" where
  "sample_adapter ipAddress deviceId json =
     snd (dispatch sample_platform (sample_dispatchMap ipAddress deviceId) json)"

definition sample_bridge :: dabBridge where
  "sample_bridge =
     \<lparr>instances = [(''D1'', sample_adapter ''10.0.0.1'' ''D1''), (''D2'', sample_adapter ''10.0.0.2'' ''D2'')],
      callback_set = True\<rparr>"

text \<open>The same bridge before \<open>setPublishCallback\<close> is called.\<close>

definition silent_bridge :: dabBridge where
  "silent_bridge =
     \<lparr>instances = [(''D1'', sample_adapter ''10.0.0.1'' ''D1''), (''D2'', sample_adapter ''10.0.0.2'' ''D2'')],
      callback_set = False\<rparr>"

definition request :: "string \<Rightarrow> jsonElement" where
  "request topic = JObject [(''topic'', JString topic)]"

text \<open>A producer of telemetry and scheduler entries that hold it.\<close>

definition sample_producer :: "unit \<Rightarrow> exn + jsonElement" where
  "sample_producer u = Inr (JObject [(''cpu'', JInt 3)])"

definition sample_entry :: "string \<Rightarrow> string \<Rightarrow> int64 \<Rightarrow> string \<times> string \<times> telemetry" where
  "sample_entry sid topic i = (sid, topic, \<lparr>interval = i, callback = sample_producer\<rparr>)"

text \<open>
  A request to launch an application on the device \<open>D1\<close>, and an \<open>appLaunch\<close> that an
  adapter overrides to return \<open>{"started":true}\<close>.
\<close>

definition launch_request :: "jsonElement \<Rightarrow> jsonElement" where
  "launch_request payload =
     JObject [(''payload'', payload), (''topic'', JString ''dab/D1/applications/launch'')]"

definition started :: "arg list \<Rightarrow> exn + jsonElement" where
  "started as = Inr (JObject [(''started'', JBool True)])"

text \<open>
  A value without a \<open>double\<close>, whose string holds a line feed and a double quote, and an
  object with a double quote in a member name.
\<close>

definition sample_value :: jsonElement where
  "sample_value =
     JObject
       [(''a'', JArray [JInt 1, JString [CHR ''x'', CHR 0x0A, CHR 0x22, CHR ''y''], JBool True, JNull, JInt (- 5)]),
        (''b'', JObject [(''c d'', JInt 9223372036854775807), (''e'', JArray [])])]"

definition quoted_name :: jsonElement where
  "quoted_name = JObject [([CHR ''a'', CHR 0x22, CHR ''b''], JNull)]"


section \<open>The serializer escapes string values as specified\<close>

lemma hexdigits_nth: "k < 16 \<Longrightarrow> hexdigits ! k = upper_hex k"
proof -
  have "\<forall>k \<in> set [0..<16]. hexdigits ! k = upper_hex k"
    by code_simp
  then show "k < 16 \<Longrightarrow> hexdigits ! k = upper_hex k" by simp
qed

lemma of_char_lt_256: "(of_char c :: nat) < 256"
  by (cases c) (simp add: of_char_Char)

lemma nib1: "n < 256 \<Longrightarrow> (int n div 16) mod 16 = int (n div 16)"
  by (simp add: zdiv_int [symmetric] del: of_nat_div)

lemma nib2: "n < 256 \<Longrightarrow> ((int n - 256) div 16) mod 16 = int (n div 16)"
proof -
  assume n: "n < 256"
  have "(int n - 256) div 16 = int n div 16 - 16" by simp
  then have "((int n - 256) div 16) mod 16 = (int n div 16 - 16) mod 16" by simp
  also have "\<dots> = (int n div 16) mod 16" by simp
  finally show ?thesis using nib1 [OF n] by simp
qed

lemma sub256_mod: "((k::int) - 256) mod 16 = k mod 16"
  by presburger

lemma div16: "n < 256 \<Longrightarrow> n div 16 < (16::nat)"
  by arith

lemma promoted_range:
  "n < 256 \<Longrightarrow> ((if sg \<and> 128 \<le> n then int n - 256 else int n) < 32 \<or>
     (if sg \<and> 128 \<le> n then int n - 256 else int n) > 127) = (n < 0x20 \<or> 0x7F < n)"
  by auto

lemma high_nibble:
  assumes "x = int n \<or> x = int n - 256" "n < 256"
  shows "nat (drop_bit 4 (x AND 0xF0)) = n div 16"
proof -
  have "drop_bit 4 (x AND 0xF0) = drop_bit 4 x AND 15"
    by (simp add: drop_bit_and)
  also have "\<dots> = take_bit 4 (drop_bit 4 x)"
    by (simp add: take_bit_eq_mask mask_eq_exp_minus_1)
  also have "\<dots> = (x div 16) mod 16"
    by (simp add: take_bit_eq_mod drop_bit_eq_div)
  also have "\<dots> = int (n div 16)"
    using assms nib1 [of n] nib2 [of n] by auto
  finally show ?thesis by simp
qed

lemma low_nibble:
  assumes "x = int n \<or> x = int n - 256" "n < 256"
  shows "nat (x AND 0x0F) = n mod 16"
proof -
  have "x AND 0x0F = take_bit 4 x"
    by (simp add: take_bit_eq_mask mask_eq_exp_minus_1)
  also have "\<dots> = x mod 16"
    by (simp add: take_bit_eq_mod)
  also have "\<dots> = int (n mod 16)"
    using assms sub256_mod [of "int n"] by (auto simp: zmod_int)
  finally show ?thesis by simp
qed

lemma char_to_int_cases:
  "char_to_int sg c = int (of_char c) \<or> char_to_int sg c = int (of_char c) - 256"
  unfolding char_to_int_def by (simp del: of_nat_of_char)

lemma char_to_int_range:
  "(char_to_int sg c < 32 \<or> char_to_int sg c > 127) =
   ((of_char c :: nat) < 0x20 \<or> 0x7F < (of_char c :: nat))"
  unfolding char_to_int_def by (rule promoted_range [OF of_char_lt_256])

lemma serialize_char_eq: "serialize_char sg c = escape_byte c"
proof -
  have n: "(of_char c :: nat) < 256" by (rule of_char_lt_256)
  have hi: "nat (drop_bit 4 (char_to_int sg c AND 0xF0)) = of_char c div 16"
    by (rule high_nibble [OF char_to_int_cases n])
  have lo: "nat (char_to_int sg c AND 0x0F) = of_char c mod 16"
    by (rule low_nibble [OF char_to_int_cases n])
  have h16: "(of_char c :: nat) div 16 < 16" by (rule div16 [OF n])
  show ?thesis
    unfolding serialize_char_def escape_byte_def hi lo char_to_int_range
    by (simp add: hexdigits_nth h16)
qed

lemma serialize_string_eq:
  "serialize_string sg v = [CHR 0x22] @ concat (map escape_byte v) @ [CHR 0x22]"
proof -
  have "serialize_char sg = escape_byte" by (rule ext) (rule serialize_char_eq)
  then show ?thesis by (simp add: serialize_string_def)
qed

text \<open>
  C6. For every string value, on either signedness of \<open>char\<close> and in either mode of
  quoting names, the serializer writes a double quote, then for each byte in turn what
  \<open>escape_byte\<close> says, then a double quote: the backslash escape for each of the five
  characters double quote, backslash, carriage return, line feed and tab; a percent sign
  and the two uppercase hexadecimal digits of the byte's value for any other byte below
  0x20 or above 0x7F; and the byte itself otherwise.
\<close>

theorem serialize_string_escapes:
  "serialize pf quoteNames (JString v) = [CHR 0x22] @ concat (map escape_byte v) @ [CHR 0x22]"
  by (simp add: serialize_string_eq)

theorem serialize_string_escapes_witness:
  "serialize sample_platform True (JString [CHR 0x01, CHR 0xE9, CHR ''a'', CHR 0x7F, CHR 0x22, CHR 0x0A]) =
     [CHR 0x22, CHR ''%'', CHR ''0'', CHR ''1'', CHR ''%'', CHR ''E'', CHR ''9'', CHR ''a'', CHR 0x7F,
      CHR 0x5C, CHR 0x22, CHR 0x5C, CHR ''n'', CHR 0x22]"
proof -
  have e: "concat (map escape_byte [CHR 0x01, CHR 0xE9, CHR ''a'', CHR 0x7F, CHR 0x22, CHR 0x0A]) =
      [CHR ''%'', CHR ''0'', CHR ''1'', CHR ''%'', CHR ''E'', CHR ''9'', CHR ''a'', CHR 0x7F,
       CHR 0x5C, CHR 0x22, CHR 0x5C, CHR ''n'']"
    by code_simp
  show ?thesis
    using serialize_string_escapes
      [of sample_platform True "[CHR 0x01, CHR 0xE9, CHR ''a'', CHR 0x7F, CHR 0x22, CHR 0x0A]"]
    by (simp only: e append_Cons append_Nil)
qed

section \<open>The mutable subscript grows an array by one element at most\<close>

text \<open>
  C10. The current length is the length of the array that the value holds, and 0 for a
  value that holds no array, which the operator first replaces by the empty array. The
  mutable numeric subscript is in bounds for every index up to the current length: below
  the length it refers to the element there and leaves the array as it is; at the length
  it appends one null element and refers to it. For every index above the current
  length the access to the vector is out of bounds.
\<close>

theorem subscript_index_bounds:
  "(index < length (arrayOf e) \<longrightarrow>
      subscript_index e index = Inr (JArray (arrayOf e), arrayOf e ! index)) \<and>
   (index = length (arrayOf e) \<longrightarrow>
      subscript_index e index = Inr (JArray (arrayOf e @ [JNull]), JNull)) \<and>
   (length (arrayOf e) < index \<longrightarrow> subscript_index e index = Inl OutOfBounds)"
  by (simp add: subscript_index_def resize_def Let_def)

theorem subscript_index_bounds_witness:
  "subscript_index (JArray [JInt 7, JBool True]) 1 = Inr (JArray [JInt 7, JBool True], JBool True) \<and>
   subscript_index (JArray [JInt 7, JBool True]) 2 = Inr (JArray [JInt 7, JBool True, JNull], JNull) \<and>
   subscript_index (JArray [JInt 7, JBool True]) 3 = Inl OutOfBounds \<and>
   subscript_index JNull 0 = Inr (JArray [JNull], JNull) \<and>
   subscript_index JNull 1 = Inl OutOfBounds"
  using subscript_index_bounds [of 1 "JArray [JInt 7, JBool True]"]
    subscript_index_bounds [of 2 "JArray [JInt 7, JBool True]"]
    subscript_index_bounds [of 3 "JArray [JInt 7, JBool True]"]
    subscript_index_bounds [of 0 JNull]
    subscript_index_bounds [of 1 JNull]
  by (simp add: arrayOf_def)

section \<open>Dispatch of an unknown operation\<close>

lemma subscript_const_has: "subscript_const e name = Inr v \<Longrightarrow> has e name"
  by (auto simp: subscript_const_def has_def split: jsonElement.splits option.splits)

text \<open>
  C8. For every request whose topic is a string that is not a key of the adapter's
  \<open>dispatchMap\<close>, \<open>dabClient::dispatch\<close> calls no handler and returns the object with the
  single member \<open>status\<close> of value 200.
\<close>

theorem dispatch_unknown_topic:
  assumes "subscript_const elem ''topic'' = Inr (JString topic)"
    and "map_of dm topic = None"
  shows "dispatch pf dm elem = (None, JObject [(''status'', JInt 200)])"
  using assms by (simp add: dispatch_def to_string_def has_def subscript_assign_def objectOf_def)

theorem dispatch_unknown_topic_witness:
  "subscript_const (request ''dab/D1/nothing'') ''topic'' = Inr (JString ''dab/D1/nothing'') \<and>
   map_of (sample_dispatchMap ''10.0.0.1'' ''D1'') ''dab/D1/nothing'' = None \<and>
   dispatch sample_platform (sample_dispatchMap ''10.0.0.1'' ''D1'') (request ''dab/D1/nothing'') =
     (None, JObject [(''status'', JInt 200)])"
proof -
  have a: "subscript_const (request ''dab/D1/nothing'') ''topic'' = Inr (JString ''dab/D1/nothing'')"
    by (simp add: request_def subscript_const_def)
  have b: "map_of (sample_dispatchMap ''10.0.0.1'' ''D1'') ''dab/D1/nothing'' = None"
    by (simp add: sample_dispatchMap_def)
  show ?thesis using a b dispatch_unknown_topic [OF a b] by simp
qed

section \<open>The bridge\<close>

lemma find_first_of_append:
  "c \<notin> set xs \<Longrightarrow> find_first_of (xs @ c # ys) c = Some (length xs)"
  by (induction xs) auto

text \<open>
  C7, as the code has it. For every request whose topic is \<open>dab/<deviceId>/<rest>\<close>, with a
  device id that has no slash and is not a key of \<open>instances\<close>, the dispatch of the
  bridge throws the \<open>dabException\<close> of status 400 and text \<open>deviceId does not exist\<close>:
  it has no \<open>catch\<close> clause and returns no response. The \<open>dispatch\<close> of no adapter is
  called and nothing is published.
\<close>

theorem bridge_unknown_device:
  assumes topic: "subscript_const json ''topic'' = Inr (JString (''dab/'' @ deviceId @ ''/'' @ rest))"
    and noslash: "CHR ''/'' \<notin> set deviceId"
    and unknown: "map_of (instances bridge) deviceId = None"
  shows "bridge_dispatch bridge json =
    \<lparr>result = Inl (DabException 400 ''deviceId does not exist''), adapters_called = [],
     bridge_published = []\<rparr>"
proof -
  have h: "has json ''topic''" by (rule subscript_const_has [OF topic])
  have ne: "''dab/'' @ deviceId @ ''/'' @ rest \<noteq> ''dab/discovery''"
  proof
    assume "''dab/'' @ deviceId @ ''/'' @ rest = ''dab/discovery''"
    then have "deviceId @ ''/'' @ rest = ''discovery''" by simp
    then have "CHR ''/'' \<in> set ''discovery''" by (metis in_set_conv_decomp append_Cons append_Nil)
    then show False by simp
  qed
  have sw: "starts_with (c_str (''dab/'' @ deviceId @ ''/'' @ rest)) ''dab/''"
    by (simp add: c_str_def NUL_def)
  have ff: "find_first_of (drop 4 (''dab/'' @ deviceId @ ''/'' @ rest)) (CHR ''/'') = Some (length deviceId)"
    using find_first_of_append [OF noslash, of rest] by simp
  have tk: "take (length deviceId) (drop 4 (''dab/'' @ deviceId @ ''/'' @ rest)) = deviceId"
    by simp
  show ?thesis
    unfolding bridge_dispatch_def
    by (simp only: h topic to_string_def ne sw ff tk unknown throw_def if_True if_False
        sum.case jsonElement.case option.case)
qed

theorem bridge_unknown_device_witness:
  "subscript_const (request ''dab/XYZ/version'') ''topic'' = Inr (JString (''dab/'' @ ''XYZ'' @ ''/'' @ ''version'')) \<and>
   CHR ''/'' \<notin> set ''XYZ'' \<and>
   map_of (instances sample_bridge) ''XYZ'' = None \<and>
   bridge_dispatch sample_bridge (request ''dab/XYZ/version'') =
     \<lparr>result = Inl (DabException 400 ''deviceId does not exist''), adapters_called = [],
      bridge_published = []\<rparr>"
proof -
  have a: "subscript_const (request ''dab/XYZ/version'') ''topic'' =
      Inr (JString (''dab/'' @ ''XYZ'' @ ''/'' @ ''version''))"
    by (simp add: request_def subscript_const_def)
  have b: "CHR ''/'' \<notin> set ''XYZ''" by simp
  have c: "map_of (instances sample_bridge) ''XYZ'' = None"
    by (simp add: sample_bridge_def)
  show ?thesis using a b c bridge_unknown_device [OF a b c] by simp
qed

text \<open>
  C7 as stated fails at the request \<open>{"topic":"dab/XYZ/version"}\<close> on a bridge with the
  devices \<open>D1\<close> and \<open>D2\<close>: the dispatch of the bridge ends with the exception and yields
  no response, so it does not yield the object with the members \<open>status\<close> and \<open>error\<close>.
\<close>

theorem bridge_unknown_device_counterexample:
  "bridge_dispatch sample_bridge (request ''dab/XYZ/version'') =
     \<lparr>result = Inl (DabException 400 ''deviceId does not exist''), adapters_called = [],
      bridge_published = []\<rparr> \<and>
   result (bridge_dispatch sample_bridge (request ''dab/XYZ/version'')) \<noteq>
     Inr (JObject [(''error'', JString ''deviceId does not exist''), (''status'', JInt 400)])"
  by code_simp

lemma discover_rest_set:
  "discover_rest True json rest called msgs =
     (None, called @ map fst rest, msgs @ map (\<lambda>(name, adapter). adapter json) rest)"
  by (induction rest arbitrary: called msgs) (auto simp: publish_def)

lemma device_ids_sorted:
  "sorted_wrt (<) (map fst (instances bridge)) \<Longrightarrow> device_ids bridge = map fst (instances bridge)"
  using sorted_list_of_set.idem_if_sorted_distinct [of "map fst (instances bridge)"]
  by (simp add: device_ids_def strict_sorted_iff)

lemma response_of_rest:
  assumes "distinct (map fst (instances bridge))" and "set rest \<subseteq> set (instances bridge)"
  shows "map (response_of bridge json) (map fst rest) = map (\<lambda>(name, adapter). adapter json) rest"
  using assms by (induction rest) (auto simp: response_of_def)

text \<open>
  C9, as the code has it. \<open>instances\<close> is a \<open>std::map\<close>: its device ids are in ascending
  order, without duplicates. For a request with the topic \<open>dab/discovery\<close>:

  on a bridge without instances the discovery branch steps past the end of \<open>instances\<close>,
  which is out of bounds;

  on a bridge with at least one instance, whose publish callback is set if there is more
  than one, the bridge calls the \<open>dispatch\<close> of every adapter but the one with the least
  device id, in ascending order of the device ids, passes each response to the publish
  callback in that order, and then calls the \<open>dispatch\<close> of the adapter with the least
  device id and returns its response;

  on a bridge with more than one instance whose publish callback is not set, the bridge
  calls the \<open>dispatch\<close> of the adapter with the second device id, and the call of the
  empty callback throws \<open>std::bad_function_call\<close>: nothing is published and no response
  is returned.
\<close>

theorem bridge_discovery:
  assumes topic: "subscript_const json ''topic'' = Inr (JString ''dab/discovery'')"
    and registry: "sorted_wrt (<) (map fst (instances bridge))"
  shows "(instances bridge = [] \<longrightarrow>
       bridge_dispatch bridge json =
         \<lparr>result = Inl OutOfBounds, adapters_called = [], bridge_published = []\<rparr>) \<and>
    (instances bridge \<noteq> [] \<and> (callback_set bridge \<or> length (instances bridge) = 1) \<longrightarrow>
       bridge_dispatch bridge json =
         \<lparr>result = Inr (response_of bridge json (hd (device_ids bridge))),
          adapters_called = tl (device_ids bridge) @ [hd (device_ids bridge)],
          bridge_published = map (response_of bridge json) (tl (device_ids bridge))\<rparr>) \<and>
    (\<not> callback_set bridge \<and> 1 < length (instances bridge) \<longrightarrow>
       bridge_dispatch bridge json =
         \<lparr>result = Inl BadFunctionCall, adapters_called = [hd (tl (device_ids bridge))],
          bridge_published = []\<rparr>)"
proof (cases "instances bridge")
  case Nil
  have h: "has json ''topic''" by (rule subscript_const_has [OF topic])
  show ?thesis
    unfolding bridge_dispatch_def
    by (simp add: h topic to_string_def Nil throw_def)
next
  case (Cons first rest)
  obtain name adapter where first: "first = (name, adapter)" by (cases first)
  have h: "has json ''topic''" by (rule subscript_const_has [OF topic])
  have ids: "device_ids bridge = name # map fst rest"
    using device_ids_sorted [OF registry] Cons first by simp
  from registry have dist: "distinct (map fst (instances bridge))"
    by (simp add: strict_sorted_iff)
  have r1: "response_of bridge json name = adapter json"
    by (simp add: response_of_def Cons first)
  have r2: "map (response_of bridge json) (map fst rest) = map (\<lambda>(name, adapter). adapter json) rest"
    by (rule response_of_rest [OF dist]) (auto simp: Cons)
  have set: "callback_set bridge \<or> rest = [] \<Longrightarrow>
      discover_rest (callback_set bridge) json rest [] [] =
        (None, map fst rest, map (\<lambda>(name, adapter). adapter json) rest)"
    using discover_rest_set [of json rest "[]" "[]"] by auto
  have unset: "\<not> callback_set bridge \<Longrightarrow> rest \<noteq> [] \<Longrightarrow>
      discover_rest (callback_set bridge) json rest [] [] = (Some BadFunctionCall, [fst (hd rest)], [])"
    by (cases rest) (auto simp: publish_def)
  have d: "bridge_dispatch bridge json =
      (case discover_rest (callback_set bridge) json rest [] [] of
         (Some x, called, msgs) \<Rightarrow> \<lparr>result = Inl x, adapters_called = called, bridge_published = msgs\<rparr>
       | (None, called, msgs) \<Rightarrow>
           \<lparr>result = Inr (adapter json), adapters_called = called @ [name], bridge_published = msgs\<rparr>)"
    unfolding bridge_dispatch_def by (simp add: h topic to_string_def Cons first)
  have a: "callback_set bridge \<or> length (instances bridge) = 1 \<Longrightarrow>
       bridge_dispatch bridge json =
         \<lparr>result = Inr (response_of bridge json (hd (device_ids bridge))),
          adapters_called = tl (device_ids bridge) @ [hd (device_ids bridge)],
          bridge_published = map (response_of bridge json) (tl (device_ids bridge))\<rparr>"
  proof -
    assume c: "callback_set bridge \<or> length (instances bridge) = 1"
    then have "callback_set bridge \<or> rest = []" by (simp add: Cons)
    from set [OF this] have "bridge_dispatch bridge json =
        \<lparr>result = Inr (adapter json), adapters_called = map fst rest @ [name],
         bridge_published = map (\<lambda>(name, adapter). adapter json) rest\<rparr>"
      by (simp add: d)
    then show ?thesis unfolding ids list.sel r1 r2 .
  qed
  have b: "\<not> callback_set bridge \<Longrightarrow> 1 < length (instances bridge) \<Longrightarrow>
       bridge_dispatch bridge json =
         \<lparr>result = Inl BadFunctionCall, adapters_called = [hd (tl (device_ids bridge))],
          bridge_published = []\<rparr>"
  proof -
    assume u: "\<not> callback_set bridge" and l: "1 < length (instances bridge)"
    from l have ne: "rest \<noteq> []" by (simp add: Cons)
    then have "hd (map fst rest) = fst (hd rest)" by (simp add: hd_map)
    with unset [OF u ne] show ?thesis by (simp add: d ids)
  qed
  from a b show ?thesis by (simp add: Cons)
qed

theorem bridge_discovery_witness:
  "subscript_const (request ''dab/discovery'') ''topic'' = Inr (JString ''dab/discovery'') \<and>
   sorted_wrt (<) (map fst (instances \<lparr>instances = [], callback_set = True\<rparr>)) \<and>
   instances \<lparr>instances = [], callback_set = True\<rparr> = [] \<and>
   bridge_dispatch \<lparr>instances = [], callback_set = True\<rparr> (request ''dab/discovery'') =
     \<lparr>result = Inl OutOfBounds, adapters_called = [], bridge_published = []\<rparr> \<and>
   sorted_wrt (<) (map fst (instances sample_bridge)) \<and>
   instances sample_bridge \<noteq> [] \<and> callback_set sample_bridge \<and>
   bridge_dispatch sample_bridge (request ''dab/discovery'') =
     \<lparr>result = Inr (JObject [(''deviceId'', JString ''D1''), (''ip'', JString ''10.0.0.1''),
                             (''status'', JInt 200)]),
      adapters_called = [''D2'', ''D1''],
      bridge_published = [JObject [(''deviceId'', JString ''D2''), (''ip'', JString ''10.0.0.2''),
                                   (''status'', JInt 200)]]\<rparr> \<and>
   sorted_wrt (<) (map fst (instances silent_bridge)) \<and>
   \<not> callback_set silent_bridge \<and> 1 < length (instances silent_bridge) \<and>
   bridge_dispatch silent_bridge (request ''dab/discovery'') =
     \<lparr>result = Inl BadFunctionCall, adapters_called = [''D2''], bridge_published = []\<rparr>"
proof -
  have a: "subscript_const (request ''dab/discovery'') ''topic'' = Inr (JString ''dab/discovery'')"
    by (simp add: request_def subscript_const_def)
  have s0: "sorted_wrt (<) (map fst (instances \<lparr>instances = [], callback_set = True\<rparr>))" by simp
  have e0: "instances \<lparr>instances = [], callback_set = True\<rparr> = []" by simp
  have s1: "sorted_wrt (<) (map fst (instances sample_bridge))" by code_simp
  have n1: "instances sample_bridge \<noteq> []" by (simp add: sample_bridge_def)
  have c1: "callback_set sample_bridge" by (simp add: sample_bridge_def)
  have i1: "device_ids sample_bridge = [''D1'', ''D2'']" by code_simp
  have d1: "response_of sample_bridge (request ''dab/discovery'') ''D1'' =
      JObject [(''deviceId'', JString ''D1''), (''ip'', JString ''10.0.0.1''), (''status'', JInt 200)]"
    by code_simp
  have d2: "response_of sample_bridge (request ''dab/discovery'') ''D2'' =
      JObject [(''deviceId'', JString ''D2''), (''ip'', JString ''10.0.0.2''), (''status'', JInt 200)]"
    by code_simp
  have s2: "sorted_wrt (<) (map fst (instances silent_bridge))" by code_simp
  have c2: "\<not> callback_set silent_bridge" by (simp add: silent_bridge_def)
  have l2: "1 < length (instances silent_bridge)" by (simp add: silent_bridge_def)
  have i2: "device_ids silent_bridge = [''D1'', ''D2'']" by code_simp
  have t0: "bridge_dispatch \<lparr>instances = [], callback_set = True\<rparr> (request ''dab/discovery'') =
     \<lparr>result = Inl OutOfBounds, adapters_called = [], bridge_published = []\<rparr>"
    using bridge_discovery [OF a s0] e0 by blast
  have "bridge_dispatch sample_bridge (request ''dab/discovery'') =
     \<lparr>result = Inr (response_of sample_bridge (request ''dab/discovery'') (hd (device_ids sample_bridge))),
      adapters_called = tl (device_ids sample_bridge) @ [hd (device_ids sample_bridge)],
      bridge_published =
        map (response_of sample_bridge (request ''dab/discovery'')) (tl (device_ids sample_bridge))\<rparr>"
    using bridge_discovery [OF a s1] n1 c1 by blast
  then have t1: "bridge_dispatch sample_bridge (request ''dab/discovery'') =
     \<lparr>result = Inr (JObject [(''deviceId'', JString ''D1''), (''ip'', JString ''10.0.0.1''),
                             (''status'', JInt 200)]),
      adapters_called = [''D2'', ''D1''],
      bridge_published = [JObject [(''deviceId'', JString ''D2''), (''ip'', JString ''10.0.0.2''),
                                   (''status'', JInt 200)]]\<rparr>"
    by (simp add: i1 d1 d2)
  have "bridge_dispatch silent_bridge (request ''dab/discovery'') =
     \<lparr>result = Inl BadFunctionCall, adapters_called = [hd (tl (device_ids silent_bridge))],
      bridge_published = []\<rparr>"
    using bridge_discovery [OF a s2] c2 l2 by blast
  then have t2: "bridge_dispatch silent_bridge (request ''dab/discovery'') =
     \<lparr>result = Inl BadFunctionCall, adapters_called = [''D2''], bridge_published = []\<rparr>"
    by (simp add: i2)
  show ?thesis using a s0 e0 t0 s1 n1 c1 t1 s2 c2 l2 t2 by blast
qed

text \<open>
  C9 as stated fails on a bridge with the devices \<open>D1\<close> and \<open>D2\<close> on which
  \<open>setPublishCallback\<close> has not been called: the response of \<open>D2\<close> is not passed on and the
  response of \<open>D1\<close> is not returned.
\<close>

theorem bridge_discovery_counterexample:
  "length (instances silent_bridge) = 2 \<and>
   bridge_dispatch silent_bridge (request ''dab/discovery'') =
     \<lparr>result = Inl BadFunctionCall, adapters_called = [''D2''], bridge_published = []\<rparr>"
  by code_simp


section \<open>The telemetry scheduler holds one entry for a subject\<close>

lemma entries_of_absent: "sid \<notin> set (subjects s) \<Longrightarrow> entries_of sid s = []"
  by (induction s) (auto simp: subjects_def entries_of_def)

lemma setInterval_None: "(setInterval sid i s = None) = (sid \<notin> set (subjects s))"
  by (induction sid i s rule: setInterval.induct) (auto simp: subjects_def split: option.splits)

lemma setInterval_subjects: "setInterval sid i s = Some s' \<Longrightarrow> subjects s' = subjects s"
  by (induction sid i s arbitrary: s' rule: setInterval.induct)
    (auto simp: subjects_def split: option.splits if_splits)

lemma setInterval_entries:
  "setInterval sid i s = Some s' \<Longrightarrow> distinct (subjects s) \<Longrightarrow>
   \<exists>t topic ex. entries_of sid s = [(t, sid, topic, ex)] \<and>
     entries_of sid s' = [(t, sid, topic, ex\<lparr>interval := i\<rparr>)]"
proof (induction s arbitrary: s')
  case Nil
  then show ?case by simp
next
  case (Cons e s)
  obtain t sid' topic ex where e: "e = (t, sid', topic, ex)" by (cases e) auto
  show ?case
  proof (cases "sid' = sid")
    case True
    with Cons.prems e have "sid \<notin> set (subjects s)" by (simp add: subjects_def)
    then have "entries_of sid s = []" by (rule entries_of_absent)
    with Cons.prems e True show ?thesis by (auto simp: entries_of_def)
  next
    case False
    with Cons.prems e obtain s'' where s'': "setInterval sid i s = Some s''" "s' = e # s''"
      by (auto split: option.splits)
    from Cons.prems have "distinct (subjects s)" by (simp add: subjects_def)
    from Cons.IH [OF s''(1) this] show ?thesis
      using False e s''(2) by (auto simp: entries_of_def)
  qed
qed

lemma map_insert_entries:
  "sid \<notin> set (subjects s) \<Longrightarrow> k \<notin> fst ` set s \<Longrightarrow>
   entries_of sid (map_insert k (sid, topic, ex) s) = [(k, sid, topic, ex)]"
proof (induction s)
  case Nil
  then show ?case by (simp add: entries_of_def)
next
  case (Cons e s)
  then show ?case
    using entries_of_absent [of sid s]
    by (cases e) (auto simp: entries_of_def subjects_def)
qed

lemma map_insert_set: "set (map_insert k v m) \<subseteq> insert (k, v) (set m)"
  by (induction k v m rule: map_insert.induct) auto

lemma map_insert_subjects_set:
  "set (subjects (map_insert now (sid, topic, ex) s)) \<subseteq> insert sid (set (subjects s))"
  using map_insert_set [of now "(sid, topic, ex)" s] by (auto simp: subjects_def)

lemma map_insert_subjects_distinct:
  "distinct (subjects s) \<Longrightarrow> sid \<notin> set (subjects s) \<Longrightarrow>
   distinct (subjects (map_insert now (sid, topic, ex) s))"
proof (induction s)
  case Nil
  then show ?case by (simp add: subjects_def)
next
  case (Cons e s)
  have sub: "set (subjects (map_insert now (sid, topic, ex) s)) \<subseteq> insert sid (set (subjects s))"
    by (rule map_insert_subjects_set)
  from Cons.prems have d: "distinct (subjects s)" and n: "sid \<notin> set (subjects s)"
    and h: "fst (snd e) \<notin> set (subjects s)" and ne: "fst (snd e) \<noteq> sid"
    by (auto simp: subjects_def)
  have "fst (snd e) \<notin> set (subjects (map_insert now (sid, topic, ex) s))"
    using sub h ne by auto
  with Cons.IH [OF d n] Cons.prems show ?case
    by (cases e) (auto simp: subjects_def)
qed

lemma deleteTelemetry_subjects:
  "distinct (subjects s) \<Longrightarrow>
   distinct (subjects (deleteTelemetry sid s)) \<and>
   set (subjects (deleteTelemetry sid s)) \<subseteq> set (subjects s)"
  by (induction sid s rule: deleteTelemetry.induct) (auto simp: subjects_def)

lemma addTelemetry_distinct:
  "distinct (subjects s) \<Longrightarrow> distinct (subjects (addTelemetry now i sid topic cb s))"
proof (cases "setInterval sid i s")
  case None
  assume d: "distinct (subjects s)"
  from None have "sid \<notin> set (subjects s)" by (simp add: setInterval_None)
  from map_insert_subjects_distinct [OF d this] show ?thesis
    unfolding addTelemetry_def None by simp
next
  case (Some s')
  assume d: "distinct (subjects s)"
  from setInterval_subjects [OF Some] d show ?thesis
    unfolding addTelemetry_def Some by simp
qed

lemma run_calls_distinct:
  "distinct (subjects s) \<Longrightarrow> distinct (subjects (run_calls calls s))"
proof (induction calls arbitrary: s)
  case Nil
  then show ?case by simp
next
  case (Cons c calls)
  have "distinct (subjects (run_call c s))"
    using Cons.prems by (cases c) (simp_all add: addTelemetry_distinct deleteTelemetry_subjects)
  then show ?case using Cons.IH by simp
qed

lemma addTelemetry_first:
  assumes "distinct (subjects s)" and "sid \<in> set (subjects s) \<or> sint now \<notin> fst ` set s"
  shows "\<exists>t topic ex. entries_of sid (addTelemetry now i sid topicA cb s) = [(t, sid, topic, ex)]"
proof (cases "setInterval sid i s")
  case None
  then have n: "sid \<notin> set (subjects s)" by (simp add: setInterval_None)
  with assms have "sint now \<notin> fst ` set s" by simp
  from map_insert_entries [OF n this] show ?thesis
    unfolding addTelemetry_def None by simp
next
  case (Some s')
  from setInterval_entries [OF Some assms(1)] show ?thesis
    unfolding addTelemetry_def Some by auto
qed

text \<open>
  What the two calls do where the insertion of the first call succeeds. Take a scheduler
  with at most one entry for each subject id, a subject id and two intervals \<open>A\<close> and \<open>B\<close>,
  and let the subject already have an entry, or let no entry be keyed by the reading
  \<open>now\<close> of the clock in the first call. After \<open>addTelemetry\<close> with \<open>A\<close> followed by
  \<open>addTelemetry\<close> with \<open>B\<close> the scheduler holds exactly one entry for the subject, its
  interval is \<open>B\<close>, and its key, topic and callback are those it had after the first call.
\<close>

lemma addTelemetry_twice_inserted:
  assumes inv: "distinct (subjects sched)"
    and fresh: "sid \<in> set (subjects sched) \<or> sint now \<notin> fst ` set sched"
  shows "\<exists>t topic ex.
            entries_of sid (addTelemetry now A sid topicA cbA sched) = [(t, sid, topic, ex)] \<and>
            entries_of sid (addTelemetry now' B sid topicB cbB (addTelemetry now A sid topicA cbA sched)) =
              [(t, sid, topic, ex\<lparr>interval := B\<rparr>)]"
proof -
  let ?s1 = "addTelemetry now A sid topicA cbA sched"
  from addTelemetry_first [OF inv fresh] obtain t topic ex
    where e1: "entries_of sid ?s1 = [(t, sid, topic, ex)]" by blast
  have d1: "distinct (subjects ?s1)" by (rule addTelemetry_distinct [OF inv])
  have "sid \<in> set (subjects ?s1)"
    using e1 entries_of_absent [of sid ?s1] by auto
  then obtain s2 where s2: "setInterval sid B ?s1 = Some s2"
    using setInterval_None [of sid B ?s1] by auto
  from setInterval_entries [OF s2 d1] e1
  have "entries_of sid s2 = [(t, sid, topic, ex\<lparr>interval := B\<rparr>)]" by auto
  then have "entries_of sid (addTelemetry now' B sid topicB cbB ?s1) = [(t, sid, topic, ex\<lparr>interval := B\<rparr>)]"
    using s2 by (simp add: addTelemetry_def)
  with e1 show ?thesis by blast
qed

text \<open>
  C4 at three calls on the empty scheduler, made while the clock reads 5:
  \<open>addTelemetry\<close> for the subject \<open>Y\<close>, then \<open>addTelemetry\<close> for the subject \<open>X\<close> with the
  interval 100 and \<open>addTelemetry\<close> for \<open>X\<close> with the interval 250. The entry of \<open>Y\<close> holds
  the key 5, so \<open>std::map::insert\<close> adds nothing for \<open>X\<close> in the second call, nor in the
  third, which finds no entry to update: the scheduler holds the entry of \<open>Y\<close> alone and
  no entry for \<open>X\<close>, where one entry with the interval 250 was to be.
\<close>

theorem addTelemetry_same_reading:
  "run_calls
     [Add 5 100 ''Y'' ''dab/D1/app-telemetry/metrics/Y'' sample_producer,
      Add 5 100 ''X'' ''dab/D1/app-telemetry/metrics/X'' sample_producer,
      Add 5 250 ''X'' ''dab/D1/app-telemetry/metrics/X'' sample_producer] [] =
     [(5, sample_entry ''Y'' ''dab/D1/app-telemetry/metrics/Y'' 100)] \<and>
   entries_of ''X''
     (run_calls
        [Add 5 100 ''Y'' ''dab/D1/app-telemetry/metrics/Y'' sample_producer,
         Add 5 100 ''X'' ''dab/D1/app-telemetry/metrics/X'' sample_producer,
         Add 5 250 ''X'' ''dab/D1/app-telemetry/metrics/X'' sample_producer] []) = []"
  by (simp add: entries_of_def addTelemetry_def sample_entry_def)

section \<open>One pass of the telemetry worker\<close>


lemma telemetry_message:
  "initializer_list
     [initializer_list [JString ''topic'', JString topic],
      initializer_list [JString ''payload'', rsp]] =
   JObject [(''payload'', rsp), (''topic'', JString topic)]"
  by (simp add: initializer_list_def)




text \<open>
  An interval that does not fit the count of the clock: with 9223372036854776
  milliseconds, which \<open>device-telemetry/start\<close> accepts as any other \<open>duration\<close>, the
  conversion of the interval overflows after the message has been published.
\<close>

lemma telemetryTask_overflow:
  "telemetryTask True 5 6 [(1, sample_entry '''' ''dab/D1/device-telemetry/metrics'' 9223372036854776)] =
     Inl SignedOverflow"
  by (simp add: telemetryTask_def getNextScheduledTime_def in_int64_def telemetry_message publish_def
      sample_entry_def sample_producer_def)


section \<open>Binding of the parameters\<close>

lemma has_subscript_const: "has e name \<Longrightarrow> \<exists>v. subscript_const e name = Inr v"
  by (auto simp: subscript_const_def has_def split: jsonElement.splits option.splits)

lemma callFixed_missing:
  assumes payload: "subscript_const elem ''payload'' = Inr payload"
    and k: "k < length (fixedParams d)"
    and absent: "\<not> has payload (fixedParams d ! k)" "\<not> has elem (fixedParams d ! k)"
      "fixedParams d ! k \<noteq> ''*''"
  shows "f \<le> k \<Longrightarrow> k - f < length types \<Longrightarrow>
     (\<forall>i. f \<le> i \<and> i < k \<longrightarrow>
        has payload (fixedParams d ! i) \<or> has elem (fixedParams d ! i) \<or> fixedParams d ! i = ''*'') \<Longrightarrow>
     callFixed pf d elem f types vs = (None, Inl (missing_parameter (fixedParams d ! k)))"
proof (induction types arbitrary: f vs)
  case Nil
  then show ?case by simp
next
  case (Cons Head Tail)
  from Cons.prems(1) k have fl: "f < length (fixedParams d)" by simp
  show ?case
  proof (cases "f = k")
    case True
    with fl absent payload show ?thesis by simp
  next
    case False
    with Cons.prems(1) have lt: "f < k" by simp
    then have le: "f + 1 \<le> k" by simp
    have len: "k - (f + 1) < length Tail" using Cons.prems(2) lt by simp
    have rest: "\<forall>i. f + 1 \<le> i \<and> i < k \<longrightarrow>
        has payload (fixedParams d ! i) \<or> has elem (fixedParams d ! i) \<or> fixedParams d ! i = ''*''"
      using Cons.prems(3) by simp
    note IH = Cons.IH [OF le len rest]
    from Cons.prems(3) lt have here:
      "has payload (fixedParams d ! f) \<or> has elem (fixedParams d ! f) \<or> fixedParams d ! f = ''*''"
      by simp
    show ?thesis
    proof (cases "has payload (fixedParams d ! f)")
      case True
      from has_subscript_const [OF True] obtain v
        where "subscript_const payload (fixedParams d ! f) = Inr v" by blast
      with True fl payload IH show ?thesis by simp
    next
      case np: False
      show ?thesis
      proof (cases "has elem (fixedParams d ! f)")
        case True
        from has_subscript_const [OF True] obtain v
          where "subscript_const elem (fixedParams d ! f) = Inr v" by blast
        with True np fl payload IH show ?thesis by simp
      next
        case False
        with np here have "fixedParams d ! f = ''*''" by simp
        with False np fl payload IH show ?thesis by simp
      qed
    qed
  qed
qed

lemma error_response_value:
  "error_response code text = JArray [JArray [JString ''status'', JInt code, JString ''error'', JString text]]"
  by (simp add: error_response_def initializer_list_def)

lemma dispatch_missing_parameter_always:
  assumes topic: "subscript_const elem ''topic'' = Inr (JString topic)"
    and entry: "map_of dm topic = Some (d, implemented)"
    and payload: "subscript_const elem ''payload'' = Inr payload"
    and k: "k < length (fixedParams d)" "length (fixedParams d) \<le> length (Args d)"
    and present: "\<forall>i < k.
        has payload (fixedParams d ! i) \<or> has elem (fixedParams d ! i) \<or> fixedParams d ! i = ''*''"
    and absent: "\<not> has payload (fixedParams d ! k)" "\<not> has elem (fixedParams d ! k)"
      "fixedParams d ! k \<noteq> ''*''"
  shows "native_call pf d elem = (None, Inl (missing_parameter (fixedParams d ! k))) \<and>
    dispatch pf dm elem =
      (None, JArray [JArray [JString ''status'', JInt 400, JString ''error'',
         JString (''missing parameter \"'' @ c_str (fixedParams d ! k) @ ''\"'')]])"
proof -
  have "k - 0 < length (Args d)" using k by simp
  from callFixed_missing [OF payload k(1) absent _ this, where vs = "[]" and pf = pf] present
  have n: "native_call pf d elem = (None, Inl (missing_parameter (fixedParams d ! k)))"
    by (simp add: native_call_def)
  then show ?thesis
    using topic entry
    by (simp add: dispatch_def to_string_def catch_all_def missing_parameter_def error_response_value)
qed

text \<open>
  C1 at the request \<open>{"topic":"dab/D1/applications/launch","payload":{}}\<close>: no handler
  is called and the dispatcher throws \<open>dabException\<close> 400 with the text that names
  \<open>appId\<close>, but the response that \<open>dispatch\<close> builds from it is an array that holds one
  array of four elements, not the object with the members \<open>status\<close> and \<open>error\<close>.
\<close>

theorem dispatch_missing_parameter:
  "dispatch sample_platform (sample_dispatchMap ''10.0.0.1'' ''D1'') (launch_request (JObject [])) =
     (None, JArray [JArray [JString ''status'', JInt 400, JString ''error'',
                            JString ''missing parameter \"appId\"'']])"
  by code_simp

lemma dispatch_without_payload:
  "dispatch sample_platform (sample_dispatchMap ''10.0.0.1'' ''D1'') (request ''dab/D1/applications/launch'') =
     (None, JArray [JArray [JString ''status'', JInt 400, JString ''error'',
                            JString ''unable to parse request'']])"
  by code_simp

lemma call_handler_Some:
  "call_handler pf d vs = (Some as, r) \<Longrightarrow> convert_all (argument_order pf) (Args d) vs = Inr as"
  by (auto simp: call_handler_def split: sum.splits)

lemma converted_nth:
  "thrown rs = [] \<Longrightarrow> length (converted rs) = length rs \<and> (\<forall>i < length rs. rs ! i = Inr (converted rs ! i))"
proof (induction rs rule: thrown.induct)
  case 1
  then show ?case by simp
next
  case (2 x rs)
  then show ?case by simp
next
  case (3 a rs)
  then have IH: "length (converted rs) = length rs" "\<forall>i < length rs. rs ! i = Inr (converted rs ! i)"
    by simp_all
  show ?case
  proof (intro conjI allI impI)
    show "length (converted (Inr a # rs)) = length (Inr a # rs)" using IH(1) by simp
  next
    fix i assume "i < length (Inr a # rs)"
    then show "(Inr a # rs) ! i = Inr (converted (Inr a # rs) ! i)"
      using IH(2) by (cases i) simp_all
  qed
qed

lemma convert_all_Inr:
  "convert_all order ts vs = Inr as \<Longrightarrow>
     thrown (map2 convert ts vs) = [] \<and> as = converted (map2 convert ts vs)"
  by (auto simp: convert_all_def split: if_splits)

lemma convert_all_length:
  "convert_all order ts vs = Inr as \<Longrightarrow> length as = min (length ts) (length vs)"
  using convert_all_Inr [of order ts vs as] converted_nth [of "map2 convert ts vs"] by simp

lemma convert_all_Temp:
  assumes conv: "convert_all order ts vs = Inr as" and i: "i < length as" and v: "vs ! i = Temp a"
  shows "as ! i = a"
proof -
  from convert_all_Inr [OF conv] have t: "thrown (map2 convert ts vs) = []"
    and as: "as = converted (map2 convert ts vs)" by simp_all
  from convert_all_length [OF conv] i have il: "i < length ts" "i < length vs" by simp_all
  then have "i < length (map2 convert ts vs)" by simp
  with converted_nth [OF t] have "map2 convert ts vs ! i = Inr (as ! i)" using as by simp
  moreover have "map2 convert ts vs ! i = convert (ts ! i) (vs ! i)" using il by simp
  ultimately show ?thesis using v by simp
qed

lemma callOptional_binds:
  assumes payload: "subscript_const elem ''payload'' = Inr payload"
  shows "callOptional pf d elem k types vs = (Some as, r) \<Longrightarrow>
    \<exists>vs'. call_handler pf d (vs @ vs') = (Some as, r) \<and> length vs' = length types \<and>
      (\<forall>i < length types.
         \<not> has payload (optionalParams d ! (k + i)) \<and> \<not> has elem (optionalParams d ! (k + i)) \<longrightarrow>
         vs' ! i = Temp (default_value (types ! i)))"
proof (induction types arbitrary: k vs)
  case Nil
  then show ?case by simp
next
  case (Cons Head Tail)
  let ?name = "optionalParams d ! k"
  from Cons.prems have inb: "\<not> length (optionalParams d) \<le> k"
    by (auto split: if_splits)
  have step: "\<exists>v. callOptional pf d elem (k + 1) Tail (vs @ [v]) = (Some as, r) \<and>
      (\<not> has payload ?name \<and> \<not> has elem ?name \<longrightarrow> v = Temp (default_value Head))"
    using Cons.prems inb payload
    by (auto split: if_splits sum.splits)
  then obtain v where v: "callOptional pf d elem (k + 1) Tail (vs @ [v]) = (Some as, r)"
    and dv: "\<not> has payload ?name \<and> \<not> has elem ?name \<longrightarrow> v = Temp (default_value Head)"
    by blast
  from Cons.IH [OF v] obtain vs' where vs': "call_handler pf d ((vs @ [v]) @ vs') = (Some as, r)"
    "length vs' = length Tail"
    "\<forall>i < length Tail.
         \<not> has payload (optionalParams d ! (k + 1 + i)) \<and> \<not> has elem (optionalParams d ! (k + 1 + i)) \<longrightarrow>
         vs' ! i = Temp (default_value (Tail ! i))"
    by blast
  have "\<forall>i < length (Head # Tail).
         \<not> has payload (optionalParams d ! (k + i)) \<and> \<not> has elem (optionalParams d ! (k + i)) \<longrightarrow>
         (v # vs') ! i = Temp (default_value ((Head # Tail) ! i))"
  proof (intro allI impI)
    fix i assume i: "i < length (Head # Tail)"
      and ab: "\<not> has payload (optionalParams d ! (k + i)) \<and> \<not> has elem (optionalParams d ! (k + i))"
    show "(v # vs') ! i = Temp (default_value ((Head # Tail) ! i))"
    proof (cases i)
      case 0
      with ab dv show ?thesis by simp
    next
      case (Suc i')
      with i ab vs'(3) show ?thesis by simp
    qed
  qed
  with vs'(1,2) show ?case
    by (intro exI [of _ "v # vs'"]) simp
qed

lemma callFixed_binds:
  assumes payload: "subscript_const elem ''payload'' = Inr payload"
  shows "callFixed pf d elem f types vs = (Some as, r) \<Longrightarrow> f \<le> length (fixedParams d) \<Longrightarrow>
    length types = (length (fixedParams d) - f) + length (optionalParams d) \<Longrightarrow>
    \<exists>vs1 vs2. call_handler pf d (vs @ vs1 @ vs2) = (Some as, r) \<and>
      length vs1 = length (fixedParams d) - f \<and> length vs2 = length (optionalParams d) \<and>
      (\<forall>i < length (optionalParams d).
         \<not> has payload (optionalParams d ! i) \<and> \<not> has elem (optionalParams d ! i) \<longrightarrow>
         vs2 ! i = Temp (default_value (types ! (length (fixedParams d) - f + i))))"
proof (induction types arbitrary: f vs)
  case Nil
  from Nil.prems(3) have e: "0 = (length (fixedParams d) - f) + length (optionalParams d)"
    by (simp only: list.size)
  have z: "length (optionalParams d) = 0" "length (fixedParams d) - f = 0"
    using e by arith+
  from Nil.prems(1) have "call_handler pf d (vs @ [] @ []) = (Some as, r)" by simp
  with z show ?case by (intro exI [of _ "[]"]) simp
next
  case (Cons Head Tail)
  show ?case
  proof (cases "f < length (fixedParams d)")
    case True
    have "\<exists>v. callFixed pf d elem (f + 1) Tail (vs @ [v]) = (Some as, r)"
      using Cons.prems(1) True payload
      by (auto split: if_splits sum.splits)
    then obtain v where v: "callFixed pf d elem (f + 1) Tail (vs @ [v]) = (Some as, r)" by blast
    have le: "f + 1 \<le> length (fixedParams d)" using True by simp
    have len: "length Tail = (length (fixedParams d) - (f + 1)) + length (optionalParams d)"
      using Cons.prems(3) True by simp
    from Cons.IH [OF v le len] obtain vs1 vs2 where
      h: "call_handler pf d ((vs @ [v]) @ vs1 @ vs2) = (Some as, r)"
        "length vs1 = length (fixedParams d) - (f + 1)" "length vs2 = length (optionalParams d)"
        "\<forall>i < length (optionalParams d).
           \<not> has payload (optionalParams d ! i) \<and> \<not> has elem (optionalParams d ! i) \<longrightarrow>
           vs2 ! i = Temp (default_value (Tail ! (length (fixedParams d) - (f + 1) + i)))"
      by blast
    have idx: "\<And>i. (Head # Tail) ! (length (fixedParams d) - f + i) =
        Tail ! (length (fixedParams d) - (f + 1) + i)"
      using True by (simp add: Suc_diff_Suc)
    have l1: "length (v # vs1) = length (fixedParams d) - f" using h(2) True by simp
    from h(1) have c: "call_handler pf d (vs @ (v # vs1) @ vs2) = (Some as, r)" by simp
    show ?thesis
      using c l1 h(3) h(4) unfolding idx [symmetric] by blast
  next
    case False
    with Cons.prems(2) have f: "f = length (fixedParams d)" by simp
    from Cons.prems(1) False have "callOptional pf d elem 0 (Head # Tail) vs = (Some as, r)"
      by simp
    from callOptional_binds [OF payload this] obtain vs' where
      h: "call_handler pf d (vs @ vs') = (Some as, r)" "length vs' = length (Head # Tail)"
        "\<forall>i < length (Head # Tail).
           \<not> has payload (optionalParams d ! (0 + i)) \<and> \<not> has elem (optionalParams d ! (0 + i)) \<longrightarrow>
           vs' ! i = Temp (default_value ((Head # Tail) ! i))"
      by blast
    from Cons.prems(3) f have len: "length (Head # Tail) = length (optionalParams d)" by simp
    show ?thesis
      using h len f by (intro exI [of _ "[]"] exI [of _ vs']) simp
  qed
qed

text \<open>
  C3, as the code has it. For a dispatcher with one handler parameter for each name and a
  request with a payload, whenever the handler is called: at the position of every
  optional parameter that is absent from the payload and from the top level of the
  request, the handler receives the default value of the parameter's type, which is the
  empty string, 0, false, 0.0, and for a parameter of type \<open>jsonElement\<close> the null value.
\<close>

theorem optional_parameter_default:
  assumes wf: "well_formed d"
    and payload: "subscript_const elem ''payload'' = Inr payload"
    and called: "native_call pf d elem = (Some as, r)"
    and j: "j < length (optionalParams d)"
    and absent: "\<not> has payload (optionalParams d ! j)" "\<not> has elem (optionalParams d ! j)"
  shows "length as = length (Args d) \<and>
    as ! (length (fixedParams d) + j) = default_value (Args d ! (length (fixedParams d) + j))"
proof -
  from wf have len: "length (Args d) = (length (fixedParams d) - 0) + length (optionalParams d)"
    by (simp add: well_formed_def)
  from called have c: "callFixed pf d elem 0 (Args d) [] = (Some as, r)"
    by (simp add: native_call_def)
  from callFixed_binds [OF payload c _ len] obtain vs1 vs2 where
    h: "call_handler pf d ([] @ vs1 @ vs2) = (Some as, r)"
      "length vs1 = length (fixedParams d) - 0" "length vs2 = length (optionalParams d)"
      "\<forall>i < length (optionalParams d).
         \<not> has payload (optionalParams d ! i) \<and> \<not> has elem (optionalParams d ! i) \<longrightarrow>
         vs2 ! i = Temp (default_value (Args d ! (length (fixedParams d) - 0 + i)))"
    by auto
  from h(1) have conv: "convert_all (argument_order pf) (Args d) (vs1 @ vs2) = Inr as"
    using call_handler_Some by simp
  from convert_all_length [OF conv] h(2,3) len have la: "length as = length (Args d)" by simp
  have i: "length (fixedParams d) + j < length as" using la len j by simp
  have "(vs1 @ vs2) ! (length (fixedParams d) + j) = vs2 ! j"
    using h(2) by (simp add: nth_append)
  also have "\<dots> = Temp (default_value (Args d ! (length (fixedParams d) + j)))"
    using h(4) j absent by simp
  finally have "as ! (length (fixedParams d) + j) = default_value (Args d ! (length (fixedParams d) + j))"
    by (rule convert_all_Temp [OF conv i])
  with la show ?thesis by simp
qed

theorem optional_parameter_default_witness:
  "well_formed (appLaunch_dispatch started) \<and>
   subscript_const (launch_request (JObject [(''appId'', JString ''netflix'')])) ''payload'' =
     Inr (JObject [(''appId'', JString ''netflix'')]) \<and>
   native_call sample_platform (appLaunch_dispatch started) (launch_request (JObject [(''appId'', JString ''netflix'')])) =
     (Some [AString ''netflix'', AJson JNull], Inr (JObject [(''started'', JBool True)])) \<and>
   0 < length (optionalParams (appLaunch_dispatch started)) \<and>
   \<not> has (JObject [(''appId'', JString ''netflix'')]) (optionalParams (appLaunch_dispatch started) ! 0) \<and>
   \<not> has (launch_request (JObject [(''appId'', JString ''netflix'')]))
       (optionalParams (appLaunch_dispatch started) ! 0) \<and>
   [AString ''netflix'', AJson JNull] ! (length (fixedParams (appLaunch_dispatch started)) + 0) =
     default_value TJson"
proof -
  have a: "well_formed (appLaunch_dispatch started)"
    by (simp add: well_formed_def appLaunch_dispatch_def)
  have b: "subscript_const (launch_request (JObject [(''appId'', JString ''netflix'')])) ''payload'' =
     Inr (JObject [(''appId'', JString ''netflix'')])"
    by (simp add: launch_request_def subscript_const_def)
  have c: "native_call sample_platform (appLaunch_dispatch started) (launch_request (JObject [(''appId'', JString ''netflix'')])) =
     (Some [AString ''netflix'', AJson JNull], Inr (JObject [(''started'', JBool True)]))"
    by code_simp
  have d: "0 < length (optionalParams (appLaunch_dispatch started))"
    by (simp add: appLaunch_dispatch_def)
  have e: "\<not> has (JObject [(''appId'', JString ''netflix'')]) (optionalParams (appLaunch_dispatch started) ! 0)"
    by (simp add: appLaunch_dispatch_def has_def)
  have f: "\<not> has (launch_request (JObject [(''appId'', JString ''netflix'')]))
       (optionalParams (appLaunch_dispatch started) ! 0)"
    by (simp add: appLaunch_dispatch_def has_def launch_request_def)
  show ?thesis
    using a b c d e f optional_parameter_default [OF a b c d e f]
    by (simp add: appLaunch_dispatch_def)
qed

text \<open>
  C3 as stated fails for the \<open>parameters\<close> argument of \<open>/applications/launch\<close>: the
  handler receives the null value, which is not the empty object.
\<close>

theorem optional_parameter_default_counterexample:
  "native_call sample_platform (appLaunch_dispatch started) (launch_request (JObject [(''appId'', JString ''netflix'')])) =
     (Some [AString ''netflix'', AJson JNull], Inr (JObject [(''started'', JBool True)])) \<and>
   AJson JNull \<noteq> AJson (JObject [])"
  by code_simp


section \<open>Reading back what the serializer writes\<close>

subsection \<open>Characters\<close>

lemma isdigit_of_char: "isdigit c = (48 \<le> (of_char c :: nat) \<and> (of_char c :: nat) \<le> 57)"
  by (simp add: isdigit_def less_eq_char_def)

lemma isNum_of_char:
  "isNum c = ((48 \<le> (of_char c :: nat) \<and> (of_char c :: nat) \<le> 57) \<or> c = CHR ''+'' \<or> c = CHR ''-'')"
  by (simp add: isNum_def less_eq_char_def)

lemma of_char_digit_char: "d < 10 \<Longrightarrow> (of_char (digit_char d) :: nat) = 48 + d"
  by (simp add: digit_char_def)

lemma of_char_upper_hex:
  "k < 16 \<Longrightarrow> (of_char (upper_hex k) :: nat) = (if k < 10 then 48 + k else 55 + k)"
  by (simp add: upper_hex_def)

lemma of_char_neq: "(of_char c :: nat) \<noteq> of_char d \<Longrightarrow> c \<noteq> d"
  by auto

subsection \<open>Decimal numbers\<close>

lemma digits_to_nat_snoc:
  "digits_to_nat (ds @ [c]) = 10 * digits_to_nat ds + (of_char c - 48)"
  by (simp add: digits_to_nat_def)

lemma nat_to_string_digits: "list_all isdigit (nat_to_string n) \<and> nat_to_string n \<noteq> []"
proof (induction n rule: nat_to_string.induct)
  case (1 n)
  show ?case
  proof (cases "n < 10")
    case True
    then show ?thesis
      by (subst nat_to_string.simps, subst (2) nat_to_string.simps)
        (simp add: isdigit_of_char of_char_digit_char)
  next
    case False
    then have m: "n mod 10 < 10" by simp
    from False 1 have "list_all isdigit (nat_to_string (n div 10))" by simp
    with False m show ?thesis
      by (subst nat_to_string.simps, subst (2) nat_to_string.simps)
        (simp add: isdigit_of_char of_char_digit_char)
  qed
qed

lemma digits_to_nat_nat_to_string: "digits_to_nat (nat_to_string n) = n"
proof (induction n rule: nat_to_string.induct)
  case (1 n)
  show ?case
  proof (cases "n < 10")
    case True
    then show ?thesis
      by (subst nat_to_string.simps) (simp add: digits_to_nat_def of_char_digit_char)
  next
    case False
    then have m: "n mod 10 < 10" by simp
    from False 1 have "digits_to_nat (nat_to_string (n div 10)) = n div 10" by simp
    with False m show ?thesis
      by (subst nat_to_string.simps) (simp add: digits_to_nat_snoc of_char_digit_char)
  qed
qed

lemma takeWhile_all: "list_all P xs \<Longrightarrow> takeWhile P xs = xs"
  by (induction xs) auto

lemma nat_to_string_head:
  "\<exists>c s. nat_to_string n = c # s \<and> isdigit c"
  using nat_to_string_digits [of n] by (cases "nat_to_string n") auto

lemma isdigit_not_isspace: "isdigit c \<Longrightarrow> \<not> isspace c \<and> c \<noteq> CHR ''-'' \<and> c \<noteq> CHR ''+''"
  by (auto simp: isdigit_of_char isspace_def less_eq_char_def)

lemma stoll_int_to_string:
  assumes "- (2 ^ 63) \<le> i" "i < 2 ^ 63"
  shows "stoll (int_to_string i) = Inr (word_of_int i)"
proof (cases "i < 0")
  case True
  obtain c s where cs: "nat_to_string (nat (- i)) = c # s" "isdigit c"
    using nat_to_string_head by blast
  have all: "takeWhile isdigit (nat_to_string (nat (- i))) = nat_to_string (nat (- i))"
    using nat_to_string_digits by (simp add: takeWhile_all)
  have v: "int (digits_to_nat (nat_to_string (nat (- i)))) = - i"
    using True by (simp add: digits_to_nat_nat_to_string)
  have sp: "\<not> isspace (CHR ''-'')" by (simp add: isspace_def less_eq_char_def)
  have ne: "nat_to_string (nat (- i)) \<noteq> []" using cs by simp
  have eq: "int_to_string i = CHR ''-'' # nat_to_string (nat (- i))"
    using True by (simp add: int_to_string_def)
  have "- int (digits_to_nat (nat_to_string (nat (- i)))) = i" using v by simp
  then show ?thesis
    using assms unfolding stoll_def eq
    by (simp add: peek_def Let_def sp all ne del: of_nat_less_numeral_iff)
next
  case False
  obtain c s where cs: "nat_to_string (nat i) = c # s" "isdigit c"
    using nat_to_string_head by blast
  have all: "takeWhile isdigit (nat_to_string (nat i)) = nat_to_string (nat i)"
    using nat_to_string_digits by (simp add: takeWhile_all)
  have v: "int (digits_to_nat (nat_to_string (nat i))) = i"
    using False by (simp add: digits_to_nat_nat_to_string)
  have dw: "dropWhile isspace (nat_to_string (nat i)) = nat_to_string (nat i)"
    using cs isdigit_not_isspace [of c] by simp
  have pk: "peek (nat_to_string (nat i)) \<noteq> CHR ''-''" "peek (nat_to_string (nat i)) \<noteq> CHR ''+''"
    using cs isdigit_not_isspace [of c] by (simp_all add: peek_def)
  have ne: "nat_to_string (nat i) \<noteq> []" using cs by simp
  show ?thesis
    using False assms
    by (simp add: stoll_def int_to_string_def Let_def dw pk all v ne)
qed

lemma stoll_sint: "stoll (int_to_string (sint (w :: int64))) = Inr w"
proof -
  have "- (2 ^ 63) \<le> sint w" using sint_ge [of w] by simp
  moreover have "sint w < 2 ^ 63" using sint_lt [of w] by simp
  ultimately show ?thesis using stoll_int_to_string [of "sint w"] by simp
qed

subsection \<open>String values\<close>

lemma parse_string_literal:
  "c \<noteq> NUL \<Longrightarrow> c \<noteq> CHR 0x22 \<Longrightarrow> c \<noteq> CHR 0x5C \<Longrightarrow> tail \<noteq> [] \<Longrightarrow>
   parse_string (c # tail) v = parse_string tail (v @ [c])"
  by (cases tail) auto

lemma upper_hex_literal:
  assumes "k < 16"
  shows "upper_hex k \<noteq> NUL \<and> upper_hex k \<noteq> CHR 0x22 \<and> upper_hex k \<noteq> CHR 0x5C"
proof -
  have "(of_char (upper_hex k) :: nat) \<noteq> of_char NUL"
    "(of_char (upper_hex k) :: nat) \<noteq> of_char (CHR 0x22)"
    "(of_char (upper_hex k) :: nat) \<noteq> of_char (CHR 0x5C)"
    using assms by (simp_all add: of_char_upper_hex NUL_def)
  then show ?thesis by auto
qed

lemma parse_string_escape_byte:
  assumes "tail \<noteq> []"
  shows "parse_string (escape_byte c @ tail) v = parse_string tail (v @ reread_byte c)"
proof -
  have n: "(of_char c :: nat) < 256" by (rule of_char_lt_256)
  have hi: "(of_char c :: nat) div 16 < 16" by (rule div16 [OF n])
  have lo: "(of_char c :: nat) mod 16 < 16" by simp
  note h = upper_hex_literal [OF hi] upper_hex_literal [OF lo]
  consider (quote) "c = CHR 0x22" | (backslash) "c = CHR 0x5C" | (cr) "c = CHR 0x0D"
    | (lf) "c = CHR 0x0A" | (tab) "c = CHR 0x09"
    | (percent) "c \<noteq> CHR 0x22" "c \<noteq> CHR 0x5C" "c \<noteq> CHR 0x0D" "c \<noteq> CHR 0x0A" "c \<noteq> CHR 0x09"
        "(of_char c :: nat) < 0x20 \<or> 0x7F < (of_char c :: nat)"
    | (literal) "c \<noteq> CHR 0x22" "c \<noteq> CHR 0x5C" "c \<noteq> CHR 0x0D" "c \<noteq> CHR 0x0A" "c \<noteq> CHR 0x09"
        "\<not> ((of_char c :: nat) < 0x20 \<or> 0x7F < (of_char c :: nat))"
    by blast
  then show ?thesis
  proof cases
    case quote
    then show ?thesis by (simp add: escape_byte_def reread_byte_def NUL_def)
  next
    case backslash
    then show ?thesis by (simp add: escape_byte_def reread_byte_def NUL_def)
  next
    case cr
    then show ?thesis by (simp add: escape_byte_def reread_byte_def NUL_def)
  next
    case lf
    then show ?thesis by (simp add: escape_byte_def reread_byte_def NUL_def)
  next
    case tab
    then show ?thesis by (simp add: escape_byte_def reread_byte_def NUL_def)
  next
    case percent
    have e: "escape_byte c = [CHR ''%'', upper_hex (of_char c div 16), upper_hex (of_char c mod 16)]"
      using percent by (simp add: escape_byte_def)
    have r: "reread_byte c = [CHR ''%'', upper_hex (of_char c div 16), upper_hex (of_char c mod 16)]"
      using percent by (auto simp: reread_byte_def)
    have p: "CHR ''%'' \<noteq> NUL" by (simp add: NUL_def)
    show ?thesis
      unfolding e r using h assms
      by (simp add: parse_string_literal p)
  next
    case literal
    have e: "escape_byte c = [c]" using literal by (simp add: escape_byte_def)
    have r: "reread_byte c = [c]" using literal by (auto simp: reread_byte_def)
    have "(of_char c :: nat) \<noteq> of_char NUL" using literal by (simp add: NUL_def)
    then have "c \<noteq> NUL" by auto
    then show ?thesis
      unfolding e r using literal assms by (simp add: parse_string_literal)
  qed
qed

lemma parse_string_escaped:
  "parse_string (concat (map escape_byte s) @ CHR 0x22 # rest) v =
     Inr (v @ concat (map reread_byte s), rest)"
proof (induction s arbitrary: v)
  case Nil
  show ?case by (cases rest) (simp_all add: NUL_def)
next
  case (Cons c s)
  have "parse_string (escape_byte c @ (concat (map escape_byte s) @ CHR 0x22 # rest)) v =
      parse_string (concat (map escape_byte s) @ CHR 0x22 # rest) (v @ reread_byte c)"
    by (rule parse_string_escape_byte) simp
  then show ?case using Cons.IH [of "v @ reread_byte c"] by simp
qed

lemma escape_byte_no_NUL: "NUL \<notin> set (escape_byte c)"
proof -
  have n: "(of_char c :: nat) < 256" by (rule of_char_lt_256)
  have hi: "(of_char c :: nat) div 16 < 16" by (rule div16 [OF n])
  have lo: "(of_char c :: nat) mod 16 < 16" by simp
  have z: "(of_char c :: nat) < 0x20 \<or> 0x7F < (of_char c :: nat) \<or> c \<noteq> NUL"
    by (auto simp: NUL_def)
  show ?thesis
    using upper_hex_literal [OF hi] upper_hex_literal [OF lo] z
    by (auto simp: escape_byte_def NUL_def)
qed

lemma reread_printable: "printable_byte c \<Longrightarrow> reread_byte c = [c]"
  by (auto simp: printable_byte_def reread_byte_def)

lemma reread_printable_string: "list_all printable_byte s \<Longrightarrow> concat (map reread_byte s) = s"
  by (induction s) (auto simp: reread_printable)

subsection \<open>The steps of the parser\<close>

lemma peek_Cons: "peek (c # s) = c"
  by (simp add: peek_def)

lemma skipSpace_Cons: "\<not> isSpace c \<Longrightarrow> skipSpace (c # s) = c # s"
  by (simp add: skipSpace_def)

lemma takeWhile_stop:
  "list_all P xs \<Longrightarrow> ys = [] \<or> \<not> P (hd ys) \<Longrightarrow>
   takeWhile P (xs @ ys) = xs \<and> dropWhile P (xs @ ys) = ys"
proof (induction xs)
  case Nil
  then show ?case by (cases ys) auto
next
  case (Cons x xs)
  then show ?case by auto
qed

lemma number_head:
  "isdigit c \<or> c = CHR ''-'' \<Longrightarrow>
   \<not> isSpace c \<and> c \<noteq> CHR ''{'' \<and> c \<noteq> CHR ''['' \<and> c \<noteq> CHR 0x22 \<and> c \<noteq> CHR '']'' \<and>
   c \<noteq> CHR ''}'' \<and> c \<noteq> NUL \<and> isNumB c \<and> isNum c \<and> c \<noteq> CHR ''.'' \<and> c \<noteq> CHR ''e''"
  by (auto simp: isdigit_of_char isSpace_def isNumB_def isNum_of_char NUL_def)

lemma parse_value_object:
  "parse_value pf (Suc n) (CHR ''{'' # s) =
     (case parse_members pf n True [] s of
        None \<Rightarrow> None
      | Some (Inl e) \<Rightarrow> Some (Inl e)
      | Some (Inr (obj, rest)) \<Rightarrow> Some (Inr (JObject obj, rest)))"
  by (simp add: skipSpace_def isSpace_def peek_def)

lemma parse_value_array:
  "parse_value pf (Suc n) (CHR ''['' # s) =
     (case parse_elements pf n True [] s of
        None \<Rightarrow> None
      | Some (Inl e) \<Rightarrow> Some (Inl e)
      | Some (Inr (arr, rest)) \<Rightarrow> Some (Inr (JArray arr, rest)))"
  by (simp add: skipSpace_def isSpace_def peek_def)

lemma parse_value_string:
  "parse_value pf (Suc n) (CHR 0x22 # s) =
     (case parse_string s [] of
        Inl e \<Rightarrow> Some (Inl e)
      | Inr (v, rest) \<Rightarrow> Some (Inr (JString v, rest)))"
  by (simp add: skipSpace_def isSpace_def peek_def)

lemma parse_value_number:
  "isdigit c \<or> c = CHR ''-'' \<Longrightarrow> parse_value pf (Suc n) (c # s) = Some (parse_number pf (c # s))"
  using number_head [of c] by (simp add: skipSpace_Cons peek_def Let_def)

lemma parse_value_true:
  "parse_value pf (Suc n) (''true'' @ rest) = Some (Inr (JBool True, rest))"
  by (simp add: skipSpace_def isSpace_def peek_def isNumB_def isNum_def less_eq_char_def)

lemma parse_value_false:
  "parse_value pf (Suc n) (''false'' @ rest) = Some (Inr (JBool False, rest))"
  by (simp add: skipSpace_def isSpace_def peek_def isNumB_def isNum_def less_eq_char_def)

lemma parse_value_null:
  "parse_value pf (Suc n) (''null'' @ rest) = Some (Inr (JNull, rest))"
  by (simp add: skipSpace_def isSpace_def peek_def isNumB_def isNum_def less_eq_char_def)

lemma parse_members_end:
  "parse_members pf (Suc n) first obj (CHR ''}'' # rest) = Some (Inr (obj, rest))"
  by (simp add: skipSpace_def isSpace_def peek_def)

lemma parse_elements_end:
  "parse_elements pf (Suc n) first arr (CHR '']'' # rest) = Some (Inr (arr, rest))"
  by (simp add: skipSpace_def isSpace_def peek_def)

lemma member_name_quoted:
  "plain_name name \<Longrightarrow> member_name (CHR 0x22 # name @ CHR 0x22 # s) = Inr (name, s)"
proof -
  assume "plain_name name"
  then have a: "list_all (\<lambda>c. c \<noteq> NUL \<and> c \<noteq> CHR 0x22) name" by (simp add: plain_name_def)
  have "takeWhile (\<lambda>c. c \<noteq> NUL \<and> c \<noteq> CHR 0x22) (name @ CHR 0x22 # s) = name \<and>
      dropWhile (\<lambda>c. c \<noteq> NUL \<and> c \<noteq> CHR 0x22) (name @ CHR 0x22 # s) = CHR 0x22 # s"
    by (rule takeWhile_stop [OF a]) simp
  then show ?thesis by (simp add: member_name_def peek_def NUL_def)
qed

lemma parse_members_step:
  assumes "plain_name name" "\<not> isSpace c"
  shows "parse_members pf (Suc n) first obj
      ((if \<not> first then '','' else []) @ [CHR 0x22] @ name @ [CHR 0x22] @ '':'' @ c # x) =
     (case parse_value pf n (c # x) of
        None \<Rightarrow> None
      | Some (Inl e) \<Rightarrow> Some (Inl e)
      | Some (Inr (v, rest)) \<Rightarrow> parse_members pf n False (map_assign name v obj) rest)"
proof -
  have nm: "member_name (CHR 0x22 # name @ CHR 0x22 # CHR '':'' # c # x) = Inr (name, CHR '':'' # c # x)"
    by (rule member_name_quoted [OF assms(1)])
  have col: "member_colon (CHR '':'' # c # x) = Inr (c # x)"
    using assms(2) by (simp add: member_colon_def skipSpace_def isSpace_def peek_def)
  show ?thesis
  proof (cases first)
    case True
    have com: "member_comma True (CHR 0x22 # name @ CHR 0x22 # CHR '':'' # c # x) =
        Inr (False, CHR 0x22 # name @ CHR 0x22 # CHR '':'' # c # x)"
      by (simp add: member_comma_def)
    show ?thesis
      using True by (simp add: skipSpace_def isSpace_def peek_def com nm col)
  next
    case False
    have com: "member_comma False (CHR '','' # CHR 0x22 # name @ CHR 0x22 # CHR '':'' # c # x) =
        Inr (False, CHR 0x22 # name @ CHR 0x22 # CHR '':'' # c # x)"
      by (simp add: member_comma_def skipSpace_def isSpace_def peek_def)
    show ?thesis
      using False by (simp add: skipSpace_def isSpace_def peek_def com nm col)
  qed
qed

lemma parse_elements_step:
  assumes "\<not> isSpace c" "c \<noteq> CHR '']''"
  shows "parse_elements pf (Suc n) first arr ((if \<not> first then '','' else []) @ c # x) =
     (case parse_value pf n (c # x) of
        None \<Rightarrow> None
      | Some (Inl e) \<Rightarrow> Some (Inl e)
      | Some (Inr (v, rest)) \<Rightarrow> parse_elements pf n False (arr @ [v]) rest)"
proof (cases first)
  case True
  then show ?thesis
    using assms by (simp add: skipSpace_def peek_def element_comma_def)
next
  case False
  then show ?thesis
    using assms by (simp add: skipSpace_def isSpace_def peek_def element_comma_def)
qed

lemma map_assign_append:
  "\<forall>k \<in> set (map fst obj). k < name \<Longrightarrow> map_assign name v obj = obj @ [(name, v)]"
  by (induction obj) auto

declare parse_value.simps [simp del] parse_members.simps [simp del] parse_elements.simps [simp del]

subsection \<open>Serialized text\<close>

lemma int_to_string_head:
  "\<exists>c s. int_to_string i = c # s \<and> (isdigit c \<or> c = CHR ''-'')"
proof (cases "i < 0")
  case True
  then show ?thesis by (simp add: int_to_string_def)
next
  case False
  then show ?thesis using nat_to_string_head [of "nat i"] by (auto simp: int_to_string_def)
qed

lemma isdigit_isNum: "list_all isdigit s \<Longrightarrow> list_all isNum s"
  by (induction s) (auto simp: isNum_def isdigit_def)

lemma int_to_string_isNum: "list_all isNum (int_to_string i)"
  using nat_to_string_digits [of "nat i"] nat_to_string_digits [of "nat (- i)"]
  by (auto simp: int_to_string_def isdigit_isNum) (simp add: isNum_def)

lemma isNum_not_float: "list_all isNum s \<Longrightarrow> \<not> list_ex (\<lambda>c. c = CHR ''.'' \<or> c = CHR ''e'') s"
  by (induction s) (auto simp: isNum_of_char)

lemma parse_number_int:
  assumes "\<not> isNum (peek rest)"
  shows "parse_number pf (int_to_string (sint (w :: int64)) @ rest) = Inr (JInt w, rest)"
proof -
  have "rest = [] \<or> \<not> isNum (hd rest)" using assms by (cases rest) (auto simp: peek_def)
  from takeWhile_stop [OF int_to_string_isNum this]
  have t: "takeWhile isNum (int_to_string (sint w) @ rest) = int_to_string (sint w)"
    and d: "dropWhile isNum (int_to_string (sint w) @ rest) = rest" by auto
  show ?thesis
    unfolding parse_number_def t d
    by (simp add: isNum_not_float [OF int_to_string_isNum] stoll_sint)
qed

lemma serialize_head:
  "plain v \<Longrightarrow> \<exists>c s. serialize pf True v = c # s \<and> \<not> isSpace c \<and> c \<noteq> CHR '']''"
proof (cases v)
  case (JInt w)
  obtain c s where "int_to_string (sint w) = c # s" "isdigit c \<or> c = CHR ''-''"
    using int_to_string_head by blast
  with JInt show ?thesis using number_head [of c] by simp
qed (auto simp: serialize_string_eq isSpace_def)

lemma members_peek:
  "\<not> isNum (peek (serialize_members pf True False obj @ CHR ''}'' # rest))"
  by (cases obj) (auto simp: peek_def isNum_of_char)

lemma elements_peek:
  "\<not> isNum (peek (serialize_elements pf True False arr @ CHR '']'' # rest))"
  by (cases arr) (auto simp: peek_def isNum_of_char)

subsection \<open>Reading back what was written\<close>

lemma roundtrip:
  "plain v \<Longrightarrow> ordered v \<Longrightarrow>
     (\<forall>n rest. 2 * length (serialize pf True v) + 1 \<le> n \<longrightarrow> \<not> isNum (peek rest) \<longrightarrow>
        parse_value pf n (serialize pf True v @ rest) = Some (Inr (reread v, rest)))"
  and "plain_members obj \<Longrightarrow> ordered_members obj \<Longrightarrow>
     (\<forall>n first acc rest.
        2 * length (serialize_members pf True first obj) + 2 \<le> n \<longrightarrow>
        sorted_wrt (<) (map fst acc @ map fst obj) \<longrightarrow>
        parse_members pf n first acc (serialize_members pf True first obj @ CHR ''}'' # rest) =
          Some (Inr (acc @ reread_members obj, rest)))"
  and "plain_elements arr \<Longrightarrow> ordered_elements arr \<Longrightarrow>
     (\<forall>n first acc rest.
        2 * length (serialize_elements pf True first arr) + 2 \<le> n \<longrightarrow>
        parse_elements pf n first acc (serialize_elements pf True first arr @ CHR '']'' # rest) =
          Some (Inr (acc @ reread_elements arr, rest)))"
proof (induction v and obj and arr rule: plain_plain_members_plain_elements.induct)
  case (1 obj)
  show ?case
  proof (intro allI impI)
    fix n rest
    assume n: "2 * length (serialize pf True (JObject obj)) + 1 \<le> n"
    then obtain n' where n': "n = Suc n'" by (cases n) auto
    with n have f: "2 * length (serialize_members pf True True obj) + 2 \<le> n'" by simp
    from 1 have s: "sorted_wrt (<) (map fst [] @ map fst obj)" by simp
    from 1 have "parse_members pf n' True [] (serialize_members pf True True obj @ CHR ''}'' # rest) =
        Some (Inr ([] @ reread_members obj, rest))"
      using f s by (metis ordered.simps(1) plain.simps(1))
    then show "parse_value pf n (serialize pf True (JObject obj) @ rest) =
        Some (Inr (reread (JObject obj), rest))"
      unfolding n' by (simp add: parse_value_object)
  qed
next
  case (2 arr)
  show ?case
  proof (intro allI impI)
    fix n rest
    assume n: "2 * length (serialize pf True (JArray arr)) + 1 \<le> n"
    then obtain n' where n': "n = Suc n'" by (cases n) auto
    with n have f: "2 * length (serialize_elements pf True True arr) + 2 \<le> n'" by simp
    from 2 have "parse_elements pf n' True [] (serialize_elements pf True True arr @ CHR '']'' # rest) =
        Some (Inr ([] @ reread_elements arr, rest))"
      using f by (metis ordered.simps(2) plain.simps(2))
    then show "parse_value pf n (serialize pf True (JArray arr) @ rest) =
        Some (Inr (reread (JArray arr), rest))"
      unfolding n' by (simp add: parse_value_array)
  qed
next
  case (3 v)
  then show ?case by simp
next
  case 4
  then show ?case by simp
next
  case 5
  show ?case
  proof (intro allI impI)
    fix n :: nat and rest
    assume "2 * length (serialize pf True JNull) + 1 \<le> n"
    then obtain n' where n': "n = Suc n'" by (cases n) auto
    show "parse_value pf n (serialize pf True JNull @ rest) = Some (Inr (reread JNull, rest))"
      unfolding n' using parse_value_null [of pf n' rest] by simp
  qed
next
  case (6 w)
  show ?case
  proof (intro allI impI)
    fix n :: nat and rest
    assume "2 * length (serialize pf True (JInt w)) + 1 \<le> n" and r: "\<not> isNum (peek rest)"
    then obtain n' where n': "n = Suc n'" by (cases n) auto
    obtain c s where cs: "int_to_string (sint w) = c # s" "isdigit c \<or> c = CHR ''-''"
      using int_to_string_head by blast
    have "parse_value pf (Suc n') ((c # s) @ rest) = Some (parse_number pf ((c # s) @ rest))"
      using parse_value_number [OF cs(2)] by simp
    then show "parse_value pf n (serialize pf True (JInt w) @ rest) = Some (Inr (reread (JInt w), rest))"
      unfolding n' using parse_number_int [OF r, of pf w] by (simp add: cs(1))
  qed
next
  case (7 s)
  show ?case
  proof (intro allI impI)
    fix n :: nat and rest
    assume "2 * length (serialize pf True (JString s)) + 1 \<le> n"
    then obtain n' where n': "n = Suc n'" by (cases n) auto
    show "parse_value pf n (serialize pf True (JString s) @ rest) = Some (Inr (reread (JString s), rest))"
      unfolding n' using parse_string_escaped [of s rest "[]"]
      by (simp add: serialize_string_eq parse_value_string)
  qed
next
  case (8 b)
  show ?case
  proof (intro allI impI)
    fix n :: nat and rest
    assume "2 * length (serialize pf True (JBool b)) + 1 \<le> n"
    then obtain n' where n': "n = Suc n'" by (cases n) auto
    show "parse_value pf n (serialize pf True (JBool b) @ rest) = Some (Inr (reread (JBool b), rest))"
      unfolding n' using parse_value_true [of pf n' rest] parse_value_false [of pf n' rest]
      by (cases b) simp_all
  qed
next
  case 9
  show ?case
  proof (intro allI impI)
    fix n :: nat and first acc rest
    assume "2 * length (serialize_members pf True first []) + 2 \<le> n"
    then obtain n' where n': "n = Suc n'" by (cases n) auto
    show "parse_members pf n first acc (serialize_members pf True first [] @ CHR ''}'' # rest) =
        Some (Inr (acc @ reread_members [], rest))"
      unfolding n' by (simp add: parse_members_end)
  qed
next
  case (10 name v obj)
  from "10.prems" have pn: "plain_name name" and pv: "plain v" and po: "plain_members obj"
    and ov: "ordered v" and oo: "ordered_members obj" by simp_all
  note IHv = "10.IH"(1) [OF pv ov, rule_format]
  note IHo = "10.IH"(2) [OF po oo, rule_format]
  obtain c x where cx: "serialize pf True v = c # x" "\<not> isSpace c"
    using serialize_head [OF pv] by blast
  show ?case
  proof (intro allI impI)
    fix n :: nat and first and acc :: "(string \<times> jsonElement) list" and rest
    let ?tail = "serialize_members pf True False obj @ CHR ''}'' # rest"
    assume n: "2 * length (serialize_members pf True first ((name, v) # obj)) + 2 \<le> n"
      and srt: "sorted_wrt (<) (map fst acc @ map fst ((name, v) # obj))"
    then obtain n' where n': "n = Suc n'" by (cases n) auto
    from n n' have fv: "2 * length (serialize pf True v) + 1 \<le> n'"
      and fo: "2 * length (serialize_members pf True False obj) + 2 \<le> n'" by simp_all
    have ser: "serialize_members pf True first ((name, v) # obj) @ CHR ''}'' # rest =
        (if \<not> first then '','' else []) @ [CHR 0x22] @ name @ [CHR 0x22] @ '':'' @ c # (x @ ?tail)"
      by (simp add: cx(1))
    have pvv: "parse_value pf n' (c # (x @ ?tail)) = Some (Inr (reread v, ?tail))"
      using IHv [OF fv members_peek [of pf obj rest]] by (simp add: cx(1))
    from srt have lt: "\<forall>k \<in> set (map fst acc). k < name"
      by (auto simp: sorted_wrt_append)
    have ma: "map_assign name (reread v) acc = acc @ [(name, reread v)]"
      by (rule map_assign_append [OF lt])
    from srt have srt': "sorted_wrt (<) (map fst (acc @ [(name, reread v)]) @ map fst obj)" by simp
    have "parse_members pf n' False (acc @ [(name, reread v)]) ?tail =
        Some (Inr ((acc @ [(name, reread v)]) @ reread_members obj, rest))"
      by (rule IHo [OF fo srt'])
    then show "parse_members pf n first acc
        (serialize_members pf True first ((name, v) # obj) @ CHR ''}'' # rest) =
        Some (Inr (acc @ reread_members ((name, v) # obj), rest))"
      unfolding n' ser parse_members_step [OF pn cx(2)] pvv by (simp add: ma)
  qed
next
  case 11
  show ?case
  proof (intro allI impI)
    fix n :: nat and first acc rest
    assume "2 * length (serialize_elements pf True first []) + 2 \<le> n"
    then obtain n' where n': "n = Suc n'" by (cases n) auto
    show "parse_elements pf n first acc (serialize_elements pf True first [] @ CHR '']'' # rest) =
        Some (Inr (acc @ reread_elements [], rest))"
      unfolding n' by (simp add: parse_elements_end)
  qed
next
  case (12 it arr)
  from "12.prems" have pv: "plain it" and pa: "plain_elements arr"
    and ov: "ordered it" and oa: "ordered_elements arr" by simp_all
  note IHv = "12.IH"(1) [OF pv ov, rule_format]
  note IHa = "12.IH"(2) [OF pa oa, rule_format]
  obtain c x where cx: "serialize pf True it = c # x" "\<not> isSpace c" "c \<noteq> CHR '']''"
    using serialize_head [OF pv] by blast
  show ?case
  proof (intro allI impI)
    fix n :: nat and first acc rest
    let ?tail = "serialize_elements pf True False arr @ CHR '']'' # rest"
    assume n: "2 * length (serialize_elements pf True first (it # arr)) + 2 \<le> n"
    then obtain n' where n': "n = Suc n'" by (cases n) auto
    from n n' have fv: "2 * length (serialize pf True it) + 1 \<le> n'"
      and fa: "2 * length (serialize_elements pf True False arr) + 2 \<le> n'"
      by (simp_all add: cx(1))
    have ser: "serialize_elements pf True first (it # arr) @ CHR '']'' # rest =
        (if \<not> first then '','' else []) @ c # (x @ ?tail)"
      by (simp add: cx(1))
    have pvv: "parse_value pf n' (c # (x @ ?tail)) = Some (Inr (reread it, ?tail))"
      using IHv [OF fv elements_peek [of pf arr rest]] by (simp add: cx(1))
    have "parse_elements pf n' False (acc @ [reread it]) ?tail =
        Some (Inr ((acc @ [reread it]) @ reread_elements arr, rest))"
      by (rule IHa [OF fa])
    then show "parse_elements pf n first acc
        (serialize_elements pf True first (it # arr) @ CHR '']'' # rest) =
        Some (Inr (acc @ reread_elements (it # arr), rest))"
      unfolding n' ser parse_elements_step [OF cx(2,3)] pvv by simp
  qed
qed

lemma isNum_not_NUL: "list_all isNum s \<Longrightarrow> NUL \<notin> set s"
  by (induction s) (auto simp: isNum_of_char NUL_def)

lemma serialize_no_NUL:
  "plain v \<Longrightarrow> NUL \<notin> set (serialize pf True v)"
  and "plain_members obj \<Longrightarrow> (\<forall>first. NUL \<notin> set (serialize_members pf True first obj))"
  and "plain_elements arr \<Longrightarrow> (\<forall>first. NUL \<notin> set (serialize_elements pf True first arr))"
proof (induction v and obj and arr rule: plain_plain_members_plain_elements.induct)
  case (6 w)
  show ?case using isNum_not_NUL [OF int_to_string_isNum] by simp
next
  case (7 s)
  show ?case using escape_byte_no_NUL by (auto simp: serialize_string_eq NUL_def)
next
  case (10 name v obj)
  then show ?case by (auto simp: plain_name_def list_all_iff NUL_def)
qed (auto simp: NUL_def)

lemma c_str_no_NUL: "NUL \<notin> set s \<Longrightarrow> c_str s = s"
  by (auto simp: c_str_def takeWhile_eq_all_conv)

lemma reread_printable_value:
  "printable v \<Longrightarrow> reread v = v"
  and "printable_members obj \<Longrightarrow> reread_members obj = obj"
  and "printable_elements arr \<Longrightarrow> reread_elements arr = arr"
  by (induction v and obj and arr rule: printable_printable_members_printable_elements.induct)
    (simp_all add: reread_printable_string)


text \<open>
  C2, as the code has it. Take a value with the names of every object in increasing
  order (as \<open>std::map\<close> keeps them), without a \<open>double\<close> and without the \<open>array\<close>
  marker, whose member names hold neither a double quote nor a NUL byte. Parsing its
  serialization returns a value, and that value is the one serialized with every byte of
  a string value that is below 0x20 (other than carriage return, line feed and tab) or
  above 0x7F replaced by the three characters of its percent encoding. It is the value
  itself when the string values hold only bytes from 0x20 to 0x7F, carriage returns, line
  feeds and tabs.
\<close>

theorem parse_serialize:
  assumes "plain v" and "ordered v"
  shows "jsonParser pf (c_str (serialize pf True v)) = Some (Inr (reread v)) \<and>
    (printable v \<longrightarrow> jsonParser pf (c_str (serialize pf True v)) = Some (Inr v))"
proof -
  have c: "c_str (serialize pf True v) = serialize pf True v"
    by (rule c_str_no_NUL [OF serialize_no_NUL(1) [OF assms(1)]])
  have n: "\<not> isNum (peek [])" by (simp add: peek_def isNum_of_char NUL_def)
  have f: "2 * length (serialize pf True v) + 1 \<le> 2 * length (serialize pf True v) + 2" by simp
  have "parse_value pf (2 * length (serialize pf True v) + 2) (serialize pf True v @ []) =
      Some (Inr (reread v, []))"
    by (rule roundtrip(1) [OF assms, rule_format, OF f n])
  then have "jsonParser pf (c_str (serialize pf True v)) = Some (Inr (reread v))"
    unfolding c by (simp add: jsonParser_def skipSpace_def peek_def)
  then show ?thesis using reread_printable_value(1) [of v] by simp
qed

theorem parse_serialize_witness:
  "plain sample_value \<and> ordered sample_value \<and> printable sample_value \<and>
   jsonParser sample_platform (c_str (serialize sample_platform True sample_value)) =
     Some (Inr sample_value) \<and>
   plain (JString [CHR 0x01, CHR 0xE9]) \<and> ordered (JString [CHR 0x01, CHR 0xE9]) \<and>
   jsonParser sample_platform (c_str (serialize sample_platform True (JString [CHR 0x01, CHR 0xE9]))) =
     Some (Inr (JString ''%01%E9''))"
proof -
  have p: "plain sample_value" by code_simp
  have o: "ordered sample_value" by code_simp
  have pr: "printable sample_value" by code_simp
  have p': "plain (JString [CHR 0x01, CHR 0xE9])" by simp
  have o': "ordered (JString [CHR 0x01, CHR 0xE9])" by simp
  have r: "reread (JString [CHR 0x01, CHR 0xE9]) = JString ''%01%E9''" by code_simp
  have t: "jsonParser sample_platform (c_str (serialize sample_platform True sample_value)) =
      Some (Inr sample_value)"
    using parse_serialize [OF p o, of sample_platform] pr by blast
  have t': "jsonParser sample_platform (c_str (serialize sample_platform True (JString [CHR 0x01, CHR 0xE9]))) =
      Some (Inr (JString ''%01%E9''))"
    using parse_serialize [OF p' o', of sample_platform] unfolding r by blast
  show ?thesis
    using p o pr p' o' t t' by blast
qed


text \<open>
  C2 as stated fails for a member name with a double quote, which is printable ASCII:
  the name is written without escaping, the parser ends it at the quote and throws.
\<close>

theorem parse_serialize_counterexample:
  "ordered quoted_name \<and> printable quoted_name \<and>
   list_all printable_byte [CHR ''a'', CHR 0x22, CHR ''b''] \<and>
   jsonParser sample_platform (c_str (serialize sample_platform True quoted_name)) =
     Some (Inl (CString ''missing name/value separator''))"
  by code_simp


text \<open>
  A \<open>double\<close> is not read back: \<open>isNum\<close> admits neither the decimal point nor the
  exponent, so the number branch stops before the point of \<open>0.000000\<close>.
\<close>

lemma parse_serialize_double:
  "jsonParser sample_platform (c_str (serialize sample_platform True (JDouble 0))) =
     Some (Inl (CString ''invalid json''))"
  by code_simp


section \<open>The parser returns on every input\<close>

lemma skipSpace_length: "length (skipSpace s) \<le> length s"
  by (simp add: skipSpace_def length_dropWhile_le)

lemma peek_tl: "peek s = c \<Longrightarrow> c \<noteq> NUL \<Longrightarrow> length (tl s) < length s"
  by (cases s) (auto simp: peek_def)

lemma skip_tl: "peek (skipSpace s) = c \<Longrightarrow> c \<noteq> NUL \<Longrightarrow> length (tl (skipSpace s)) < length s"
  using peek_tl [of "skipSpace s" c] skipSpace_length [of s] by simp

lemma parse_string_length: "parse_string s v = Inr (x, r) \<Longrightarrow> length r < length s"
  by (induction s v rule: parse_string.induct) (auto split: if_splits)

lemma dropWhile_shorter: "takeWhile P s \<noteq> [] \<Longrightarrow> length (dropWhile P s) < length s"
  by (cases s) (auto simp: less_Suc_eq_le length_dropWhile_le split: if_splits)

lemma stoll_nonempty: "stoll v = Inr i \<Longrightarrow> v \<noteq> []"
  by (auto simp: stoll_def Let_def peek_def split: if_splits)

lemma parse_number_length: "parse_number pf s = Inr (v, r) \<Longrightarrow> length r < length s"
proof -
  assume a: "parse_number pf s = Inr (v, r)"
  have "takeWhile isNum s \<noteq> []"
  proof (cases "list_ex (\<lambda>c. c = CHR ''.'' \<or> c = CHR ''e'') (takeWhile isNum s)")
    case True
    then show ?thesis by auto
  next
    case False
    with a obtain i where "stoll (takeWhile isNum s) = Inr i"
      by (auto simp: parse_number_def Let_def split: sum.splits)
    then show ?thesis by (rule stoll_nonempty)
  qed
  moreover from a have "r = dropWhile isNum s"
    by (auto simp: parse_number_def Let_def split: sum.splits if_splits)
  ultimately show ?thesis using dropWhile_shorter by simp
qed

lemma member_comma_length:
  "member_comma first s = Inr (x, r) \<Longrightarrow> length r \<le> length s \<and> (x \<longrightarrow> length r < length s)"
proof -
  assume a: "member_comma first s = Inr (x, r)"
  show ?thesis
  proof (cases first)
    case True
    with a show ?thesis by (auto simp: member_comma_def)
  next
    case False
    with a have c: "peek s = CHR '',''" by (auto simp: member_comma_def split: if_splits)
    then have l: "length (tl s) < length s" by (rule peek_tl) (simp add: NUL_def)
    have l2: "length (skipSpace (tl s)) \<le> length (tl s)" by (rule skipSpace_length)
    have l3: "length (tl (skipSpace (tl s))) \<le> length (skipSpace (tl s))" by simp
    from a False c l l2 l3 show ?thesis
      by (auto simp: member_comma_def Let_def split: if_splits)
  qed
qed

lemma member_name_length: "member_name s = Inr (name, r) \<Longrightarrow> length r \<le> length s"
proof -
  assume a: "member_name s = Inr (name, r)"
  have l1: "length (tl (dropWhile (\<lambda>c. c \<noteq> NUL \<and> c \<noteq> CHR 0x22) (tl s))) \<le> length s"
    using length_dropWhile_le [of "\<lambda>c. c \<noteq> NUL \<and> c \<noteq> CHR 0x22" "tl s"] by simp
  have l2: "length (dropWhile isSymbolB s) \<le> length s" by (rule length_dropWhile_le)
  from a l1 l2 show ?thesis
    by (auto simp: member_name_def Let_def split: if_splits)
qed

lemma member_colon_length: "member_colon s = Inr r \<Longrightarrow> length r < length s"
proof -
  assume a: "member_colon s = Inr r"
  then have c: "peek (skipSpace s) = CHR '':''"
    by (auto simp: member_colon_def Let_def split: if_splits)
  then have l: "length (tl (skipSpace s)) < length s" by (rule skip_tl) (simp add: NUL_def)
  have "length (skipSpace (tl (skipSpace s))) \<le> length (tl (skipSpace s))" by (rule skipSpace_length)
  with a c l show ?thesis by (auto simp: member_colon_def Let_def split: if_splits)
qed

lemma element_comma_length: "element_comma first s = Inr r \<Longrightarrow> length r \<le> length s"
proof -
  assume a: "element_comma first s = Inr r"
  show ?thesis
  proof (cases first)
    case True
    with a show ?thesis by (simp add: element_comma_def)
  next
    case False
    with a have c: "peek s = CHR '',''" by (auto simp: element_comma_def split: if_splits)
    then have l: "length (tl s) < length s" by (rule peek_tl) (simp add: NUL_def)
    have "length (skipSpace (tl s)) \<le> length (tl s)" by (rule skipSpace_length)
    with a False c l show ?thesis by (auto simp: element_comma_def split: if_splits)
  qed
qed

lemma take_drop_shorter: "take k s = t \<Longrightarrow> length t = k \<Longrightarrow> 0 < k \<Longrightarrow> length (drop k s) < length s"
  by (cases "k \<le> length s") auto

lemma parse_value_reads:
  assumes m: "\<And>s first obj v r. parse_members pf n first obj s = Some (Inr (v, r)) \<Longrightarrow> length r < length s"
    and e: "\<And>s first arr v r. parse_elements pf n first arr s = Some (Inr (v, r)) \<Longrightarrow> length r < length s"
    and p: "parse_value pf (Suc n) s = Some (Inr (v, r))"
  shows "length r < length s"
proof -
  let ?str = "skipSpace s"
  have le: "length ?str \<le> length s" by (rule skipSpace_length)
  have tl_le: "length (tl ?str) \<le> length s" using le by simp
  consider (obj) "peek ?str = CHR ''{''"
    | (arr) "peek ?str \<noteq> CHR ''{''" "peek ?str = CHR ''[''"
    | (str) "peek ?str \<noteq> CHR ''{''" "peek ?str \<noteq> CHR ''[''" "peek ?str = CHR 0x22"
    | (num) "peek ?str \<noteq> CHR ''{''" "peek ?str \<noteq> CHR ''[''" "peek ?str \<noteq> CHR 0x22" "isNumB (peek ?str)"
    | (lit) "peek ?str \<noteq> CHR ''{''" "peek ?str \<noteq> CHR ''[''" "peek ?str \<noteq> CHR 0x22" "\<not> isNumB (peek ?str)"
    by blast
  then show ?thesis
  proof cases
    case obj
    with p obtain x where "parse_members pf n True [] (tl ?str) = Some (Inr (x, r))"
      by (auto simp: parse_value.simps Let_def split: option.splits sum.splits)
    from m [OF this] tl_le show ?thesis by simp
  next
    case arr
    with p obtain x where "parse_elements pf n True [] (tl ?str) = Some (Inr (x, r))"
      by (auto simp: parse_value.simps Let_def split: option.splits sum.splits)
    from e [OF this] tl_le show ?thesis by simp
  next
    case str
    with p obtain x where "parse_string (tl ?str) [] = Inr (x, r)"
      by (auto simp: parse_value.simps Let_def split: sum.splits)
    from parse_string_length [OF this] tl_le show ?thesis by simp
  next
    case num
    with p have "parse_number pf ?str = Inr (v, r)"
      by (auto simp: parse_value.simps Let_def)
    from parse_number_length [OF this] le show ?thesis by simp
  next
    case lit
    with p have "(take 4 ?str = ''true'' \<and> r = drop 4 ?str) \<or> (take 5 ?str = ''false'' \<and> r = drop 5 ?str)
        \<or> (take 4 ?str = ''null'' \<and> r = drop 4 ?str)"
      by (auto simp: parse_value.simps Let_def split: if_splits)
    then have "length r < length ?str"
      using take_drop_shorter [of 4 ?str "''true''"] take_drop_shorter [of 5 ?str "''false''"]
        take_drop_shorter [of 4 ?str "''null''"] by auto
    with le show ?thesis by simp
  qed
qed

lemma parse_value_returns:
  assumes m: "\<And>s first obj. 2 * length s + 2 \<le> n \<Longrightarrow> parse_members pf n first obj s \<noteq> None"
    and e: "\<And>s first arr. 2 * length s + 2 \<le> n \<Longrightarrow> parse_elements pf n first arr s \<noteq> None"
    and b: "2 * length s + 1 \<le> Suc n"
  shows "parse_value pf (Suc n) s \<noteq> None"
proof -
  let ?str = "skipSpace s"
  consider (obj) "peek ?str = CHR ''{''"
    | (arr) "peek ?str \<noteq> CHR ''{''" "peek ?str = CHR ''[''"
    | (other) "peek ?str \<noteq> CHR ''{''" "peek ?str \<noteq> CHR ''[''"
    by blast
  then show ?thesis
  proof cases
    case obj
    have "length (tl ?str) < length s" by (rule skip_tl [OF obj]) (simp add: NUL_def)
    with b have "2 * length (tl ?str) + 2 \<le> n" by simp
    from m [OF this] obj show ?thesis
      by (auto simp: parse_value.simps Let_def split: option.splits sum.splits)
  next
    case arr
    have "length (tl ?str) < length s" by (rule skip_tl [OF arr(2)]) (simp add: NUL_def)
    with b have "2 * length (tl ?str) + 2 \<le> n" by simp
    from e [OF this] arr show ?thesis
      by (auto simp: parse_value.simps Let_def split: option.splits sum.splits)
  next
    case other
    then show ?thesis
      by (auto simp: parse_value.simps Let_def split: sum.splits)
  qed
qed

lemma parse_members_cases:
  assumes "parse_members pf (Suc n) first obj s = res"
  obtains (close) "peek (skipSpace s) = CHR ''}''" "res = Some (Inr (obj, tl (skipSpace s)))"
    | (throw) e where "res = Some (Inl e)"
    | (comma_close) rest where "member_comma first (skipSpace s) = Inr (True, rest)"
        "res = Some (Inr (obj, rest))"
    | (member) s1 name s2 s3 where "member_comma first (skipSpace s) = Inr (False, s1)"
        "member_name s1 = Inr (name, s2)" "member_colon s2 = Inr s3"
        "res = (case parse_value pf n s3 of
                  None \<Rightarrow> None
                | Some (Inl e) \<Rightarrow> Some (Inl e)
                | Some (Inr (v, rest)) \<Rightarrow> parse_members pf n False (map_assign name v obj) rest)"
  using assms
  by (auto simp: parse_members.simps Let_def
      split: if_splits sum.splits option.splits prod.splits bool.splits)

lemma parse_elements_cases:
  assumes "parse_elements pf (Suc n) first arr s = res"
  obtains (close) "peek (skipSpace s) = CHR '']''" "res = Some (Inr (arr, tl (skipSpace s)))"
    | (throw) e where "res = Some (Inl e)"
    | (element) s1 where "element_comma first (skipSpace s) = Inr s1"
        "res = (case parse_value pf n s1 of
                  None \<Rightarrow> None
                | Some (Inl e) \<Rightarrow> Some (Inl e)
                | Some (Inr (v, rest)) \<Rightarrow> parse_elements pf n False (arr @ [v]) rest)"
  using assms
  by (auto simp: parse_elements.simps Let_def split: if_splits sum.splits option.splits prod.splits)

lemma parse_members_reads:
  assumes v: "\<And>s v r. parse_value pf n s = Some (Inr (v, r)) \<Longrightarrow> length r < length s"
    and m: "\<And>s first obj v r. parse_members pf n first obj s = Some (Inr (v, r)) \<Longrightarrow> length r < length s"
    and p: "parse_members pf (Suc n) first obj s = Some (Inr (x, r))"
  shows "length r < length s"
proof -
  have le: "length (skipSpace s) \<le> length s" by (rule skipSpace_length)
  from p show ?thesis
  proof (cases rule: parse_members_cases)
    case close
    have "length (tl (skipSpace s)) < length s" by (rule skip_tl [OF close(1)]) (simp add: NUL_def)
    with close show ?thesis by simp
  next
    case (throw e)
    then show ?thesis by simp
  next
    case (comma_close rest)
    from member_comma_length [OF comma_close(1)] comma_close(2) le show ?thesis by simp
  next
    case (member s1 name s2 s3)
    from member(4) obtain w rest where w: "parse_value pf n s3 = Some (Inr (w, rest))"
      and rec: "parse_members pf n False (map_assign name w obj) rest = Some (Inr (x, r))"
      by (auto split: option.splits sum.splits)
    from member_comma_length [OF member(1)] member_name_length [OF member(2)]
      member_colon_length [OF member(3)] v [OF w] m [OF rec] le
    show ?thesis by simp
  qed
qed

lemma parse_members_returns:
  assumes vr: "\<And>s v r. parse_value pf n s = Some (Inr (v, r)) \<Longrightarrow> length r < length s"
    and v: "\<And>s. 2 * length s + 1 \<le> n \<Longrightarrow> parse_value pf n s \<noteq> None"
    and m: "\<And>s first obj. 2 * length s + 2 \<le> n \<Longrightarrow> parse_members pf n first obj s \<noteq> None"
    and b: "2 * length s + 2 \<le> Suc n"
  shows "parse_members pf (Suc n) first obj s \<noteq> None"
proof -
  have le: "length (skipSpace s) \<le> length s" by (rule skipSpace_length)
  obtain res where res: "parse_members pf (Suc n) first obj s = res" by simp
  from res have "res \<noteq> None"
  proof (cases rule: parse_members_cases)
    case (member s1 name s2 s3)
    from member_comma_length [OF member(1)] member_name_length [OF member(2)]
      member_colon_length [OF member(3)] le
    have l3: "length s3 < length s" by simp
    with b have "2 * length s3 + 1 \<le> n" by simp
    from v [OF this] obtain y where y: "parse_value pf n s3 = Some y" by auto
    show ?thesis
    proof (cases y)
      case (Inl e)
      with y member(4) show ?thesis by simp
    next
      case (Inr q)
      obtain w rest where q: "q = (w, rest)" by (cases q) auto
      from vr [OF y [unfolded Inr q]] l3 b have "2 * length rest + 2 \<le> n" by simp
      from m [OF this] y Inr q member(4) show ?thesis by simp
    qed
  qed simp_all
  with res show ?thesis by simp
qed

lemma parse_elements_reads:
  assumes v: "\<And>s v r. parse_value pf n s = Some (Inr (v, r)) \<Longrightarrow> length r < length s"
    and m: "\<And>s first arr v r. parse_elements pf n first arr s = Some (Inr (v, r)) \<Longrightarrow> length r < length s"
    and p: "parse_elements pf (Suc n) first arr s = Some (Inr (x, r))"
  shows "length r < length s"
proof -
  have le: "length (skipSpace s) \<le> length s" by (rule skipSpace_length)
  from p show ?thesis
  proof (cases rule: parse_elements_cases)
    case close
    have "length (tl (skipSpace s)) < length s" by (rule skip_tl [OF close(1)]) (simp add: NUL_def)
    with close show ?thesis by simp
  next
    case (throw e)
    then show ?thesis by simp
  next
    case (element s1)
    from element(2) obtain w rest where w: "parse_value pf n s1 = Some (Inr (w, rest))"
      and rec: "parse_elements pf n False (arr @ [w]) rest = Some (Inr (x, r))"
      by (auto split: option.splits sum.splits)
    from element_comma_length [OF element(1)] v [OF w] m [OF rec] le
    show ?thesis by simp
  qed
qed

lemma parse_elements_returns:
  assumes vr: "\<And>s v r. parse_value pf n s = Some (Inr (v, r)) \<Longrightarrow> length r < length s"
    and v: "\<And>s. 2 * length s + 1 \<le> n \<Longrightarrow> parse_value pf n s \<noteq> None"
    and m: "\<And>s first arr. 2 * length s + 2 \<le> n \<Longrightarrow> parse_elements pf n first arr s \<noteq> None"
    and b: "2 * length s + 2 \<le> Suc n"
  shows "parse_elements pf (Suc n) first arr s \<noteq> None"
proof -
  have le: "length (skipSpace s) \<le> length s" by (rule skipSpace_length)
  obtain res where res: "parse_elements pf (Suc n) first arr s = res" by simp
  from res have "res \<noteq> None"
  proof (cases rule: parse_elements_cases)
    case (element s1)
    from element_comma_length [OF element(1)] le have l1: "length s1 \<le> length s" by simp
    with b have "2 * length s1 + 1 \<le> n" by simp
    from v [OF this] obtain y where y: "parse_value pf n s1 = Some y" by auto
    show ?thesis
    proof (cases y)
      case (Inl e)
      with y element(2) show ?thesis by simp
    next
      case (Inr q)
      obtain w rest where q: "q = (w, rest)" by (cases q) auto
      from vr [OF y [unfolded Inr q]] l1 b have "2 * length rest + 2 \<le> n" by simp
      from m [OF this] y Inr q element(2) show ?thesis by simp
    qed
  qed simp_all
  with res show ?thesis by simp
qed

lemma parser_reads:
  "(\<forall>s v r. parse_value pf n s = Some (Inr (v, r)) \<longrightarrow> length r < length s) \<and>
   (\<forall>s first obj v r. parse_members pf n first obj s = Some (Inr (v, r)) \<longrightarrow> length r < length s) \<and>
   (\<forall>s first arr v r. parse_elements pf n first arr s = Some (Inr (v, r)) \<longrightarrow> length r < length s)"
proof (induction n)
  case 0
  show ?case by (simp add: parse_value.simps parse_members.simps parse_elements.simps)
next
  case (Suc n)
  then have v: "\<And>s v r. parse_value pf n s = Some (Inr (v, r)) \<Longrightarrow> length r < length s"
    and m: "\<And>s first obj v r. parse_members pf n first obj s = Some (Inr (v, r)) \<Longrightarrow> length r < length s"
    and e: "\<And>s first arr v r. parse_elements pf n first arr s = Some (Inr (v, r)) \<Longrightarrow> length r < length s"
    by blast+
  show ?case
  proof (intro conjI allI impI)
    fix s v r
    assume p: "parse_value pf (Suc n) s = Some (Inr (v, r))"
    show "length r < length s"
    proof (rule parse_value_reads [OF _ _ p])
      show "\<And>s first obj v r. parse_members pf n first obj s = Some (Inr (v, r)) \<Longrightarrow> length r < length s"
        by (rule m)
      show "\<And>s first arr v r. parse_elements pf n first arr s = Some (Inr (v, r)) \<Longrightarrow> length r < length s"
        by (rule e)
    qed
  next
    fix s first obj v r
    assume p: "parse_members pf (Suc n) first obj s = Some (Inr (v, r))"
    show "length r < length s"
    proof (rule parse_members_reads [OF _ _ p])
      show "\<And>s v r. parse_value pf n s = Some (Inr (v, r)) \<Longrightarrow> length r < length s"
        by (rule v)
      show "\<And>s first obj v r. parse_members pf n first obj s = Some (Inr (v, r)) \<Longrightarrow> length r < length s"
        by (rule m)
    qed
  next
    fix s first arr v r
    assume p: "parse_elements pf (Suc n) first arr s = Some (Inr (v, r))"
    show "length r < length s"
    proof (rule parse_elements_reads [OF _ _ p])
      show "\<And>s v r. parse_value pf n s = Some (Inr (v, r)) \<Longrightarrow> length r < length s"
        by (rule v)
      show "\<And>s first arr v r. parse_elements pf n first arr s = Some (Inr (v, r)) \<Longrightarrow> length r < length s"
        by (rule e)
    qed
  qed
qed

lemma parser_returns:
  "(\<forall>s. 2 * length s + 1 \<le> n \<longrightarrow> parse_value pf n s \<noteq> None) \<and>
   (\<forall>s first obj. 2 * length s + 2 \<le> n \<longrightarrow> parse_members pf n first obj s \<noteq> None) \<and>
   (\<forall>s first arr. 2 * length s + 2 \<le> n \<longrightarrow> parse_elements pf n first arr s \<noteq> None)"
proof (induction n)
  case 0
  show ?case by simp
next
  case (Suc n)
  then have v: "\<And>s. 2 * length s + 1 \<le> n \<Longrightarrow> parse_value pf n s \<noteq> None"
    and m: "\<And>s first obj. 2 * length s + 2 \<le> n \<Longrightarrow> parse_members pf n first obj s \<noteq> None"
    and e: "\<And>s first arr. 2 * length s + 2 \<le> n \<Longrightarrow> parse_elements pf n first arr s \<noteq> None"
    by blast+
  have vr: "\<And>s v r. parse_value pf n s = Some (Inr (v, r)) \<Longrightarrow> length r < length s"
    using parser_reads [of pf n] by blast
  show ?case
  proof (intro conjI allI impI)
    fix s :: string
    assume b: "2 * length s + 1 \<le> Suc n"
    show "parse_value pf (Suc n) s \<noteq> None"
    proof (rule parse_value_returns [OF _ _ b])
      show "\<And>s first obj. 2 * length s + 2 \<le> n \<Longrightarrow> parse_members pf n first obj s \<noteq> None"
        by (rule m)
      show "\<And>s first arr. 2 * length s + 2 \<le> n \<Longrightarrow> parse_elements pf n first arr s \<noteq> None"
        by (rule e)
    qed
  next
    fix s :: string and first and obj :: "(string \<times> jsonElement) list"
    assume b: "2 * length s + 2 \<le> Suc n"
    show "parse_members pf (Suc n) first obj s \<noteq> None"
    proof (rule parse_members_returns [OF _ _ _ b])
      show "\<And>s v r. parse_value pf n s = Some (Inr (v, r)) \<Longrightarrow> length r < length s"
        by (rule vr)
      show "\<And>s. 2 * length s + 1 \<le> n \<Longrightarrow> parse_value pf n s \<noteq> None"
        by (rule v)
      show "\<And>s first obj. 2 * length s + 2 \<le> n \<Longrightarrow> parse_members pf n first obj s \<noteq> None"
        by (rule m)
    qed
  next
    fix s :: string and first and arr :: "jsonElement list"
    assume b: "2 * length s + 2 \<le> Suc n"
    show "parse_elements pf (Suc n) first arr s \<noteq> None"
    proof (rule parse_elements_returns [OF _ _ _ b])
      show "\<And>s v r. parse_value pf n s = Some (Inr (v, r)) \<Longrightarrow> length r < length s"
        by (rule vr)
      show "\<And>s. 2 * length s + 1 \<le> n \<Longrightarrow> parse_value pf n s \<noteq> None"
        by (rule v)
      show "\<And>s first arr. 2 * length s + 2 \<le> n \<Longrightarrow> parse_elements pf n first arr s \<noteq> None"
        by (rule e)
    qed
  qed
qed

text \<open>
  The bound that \<open>jsonParser\<close> passes is large enough for every input: the parser
  returns a value or throws.
\<close>

lemma jsonParser_returns: "jsonParser pf str \<noteq> None"
proof -
  have "parse_value pf (2 * length str + 2) str \<noteq> None"
    using parser_returns [of "2 * length str + 2" pf] by simp
  then show ?thesis
    by (auto simp: jsonParser_def split: option.splits sum.splits)
qed

end
